theory Spec2Isabelle
  imports Main "HOL-Library.AList" "HOL-Library.Multiset" "HOL-Library.Char_ord"
    "HOL-Library.List_Lexorder"
begin

section \<open>Data model\<close>

text \<open>
  The Slack payloads reach the code as untyped JSON (\<^verbatim>\<open>any\<close>). They are modelled at the
  types of the search.messages schema, and every field the code reads is optional:
  \<open>None\<close> stands for a property that is absent (\<^verbatim>\<open>undefined\<close>) or \<^verbatim>\<open>null\<close>. The two
  behave alike at every place the code reads them: both are falsy, and reading a property
  of either raises a TypeError. The field \<^verbatim>\<open>text\<close> of a match is \<open>msg_text\<close> here.

  A JavaScript string is modelled by its bytes in (generalised) UTF-8: an ASCII character
  is one byte, and a surrogate code unit that is not half of a pair, which UTF-8 proper
  cannot hold, is the three bytes \<open>ED\<close>, \<open>A0..BF\<close>, \<open>80..BF\<close>. The empty string is the only
  falsy one. The code joins strings only with ASCII text in between, where joining the
  bytes is joining the strings.
\<close>

record channel =
  ch_id :: "string option"
  ch_name :: "string option"

record match =
  channel :: "channel option"
  msg_text :: "string option"

record channel_summary =
  cs_id :: string
  cs_name :: string

text \<open>JavaScript truthiness of an optional string: present and not empty.\<close>

definition truthy :: "string option \<Rightarrow> bool" where
  "truthy v = (case v of None \<Rightarrow> False | Some s \<Rightarrow> s \<noteq> [])"

section \<open>aggregateMentions\<close>

text \<open>
  \<^verbatim>\<open>new Map<string, string>()\<close> keeps its keys in insertion order, and \<^verbatim>\<open>set\<close> on a key
  that is already there replaces the value where the key stands. That is
  \<open>AList.update\<close> on an association list.

  The body of the first \<^verbatim>\<open>forEach\<close>:
  \<^verbatim>\<open>if (msg.channel && msg.channel.id) {
       const channelName = msg.channel.name || `private-channel-${msg.channel.id}`;
       channelMap.set(msg.channel.id, channelName); }\<close>
\<close>

definition record_channel :: "(string \<times> string) list \<Rightarrow> match \<Rightarrow> (string \<times> string) list" where
  "record_channel channelMap msg =
     (case channel msg of
        None \<Rightarrow> channelMap
      | Some ch \<Rightarrow>
          (case ch_id ch of
             None \<Rightarrow> channelMap
           | Some i \<Rightarrow>
               if i = [] then channelMap
               else
                 let channelName =
                       (if truthy (ch_name ch) then the (ch_name ch)
                        else ''private-channel-'' @ i)
                 in AList.update i channelName channelMap))"

text \<open>
  \<^verbatim>\<open>list.sort((a, b) => a.name.localeCompare(b.name))\<close>. The collation is the runtime's:
  \<open>localeCompare\<close> is a parameter, negative, zero or positive as the first name sorts
  before, with or after the second. \<^verbatim>\<open>Array.prototype.sort\<close> is a stable sort; it is
  modelled as the stable insertion sort.
\<close>

fun insert_sorted :: "('a \<Rightarrow> 'a \<Rightarrow> int) \<Rightarrow> 'a \<Rightarrow> 'a list \<Rightarrow> 'a list" where
  "insert_sorted cmp x [] = [x]"
| "insert_sorted cmp x (y # ys) =
     (if cmp x y \<le> 0 then x # y # ys else y # insert_sorted cmp x ys)"

definition array_sort :: "('a \<Rightarrow> 'a \<Rightarrow> int) \<Rightarrow> 'a list \<Rightarrow> 'a list" where
  "array_sort cmp xs = foldr (insert_sorted cmp) xs []"

text \<open>
  \<^verbatim>\<open>channelMap.forEach((name, id) => { list.push({ id, name }); });\<close>
\<close>

definition summaries :: "(string \<times> string) list \<Rightarrow> channel_summary list" where
  "summaries cm = map (\<lambda>(i, name). \<lparr>cs_id = i, cs_name = name\<rparr>) cm"

definition aggregateMentions ::
  "(string \<Rightarrow> string \<Rightarrow> int) \<Rightarrow> match list \<Rightarrow> channel_summary list" where
  "aggregateMentions localeCompare messages =
     (let channelMap = foldl record_channel [] messages;
          list = summaries channelMap
      in array_sort (\<lambda>a b. localeCompare (cs_name a) (cs_name b)) list)"

text \<open>
  What the claims call a match that has a channel id, and the name such a match
  contributes: its channel's name, or the placeholder when the name is missing or empty.
\<close>

definition match_id :: "match \<Rightarrow> string option" where
  "match_id msg =
     (case channel msg of
        None \<Rightarrow> None
      | Some ch \<Rightarrow> (if truthy (ch_id ch) then ch_id ch else None))"

definition match_name :: "match \<Rightarrow> string option" where
  "match_name msg = (case channel msg of None \<Rightarrow> None | Some ch \<Rightarrow> ch_name ch)"

definition display_name :: "string \<Rightarrow> match \<Rightarrow> string" where
  "display_name i msg =
     (if truthy (match_name msg) then the (match_name msg) else ''private-channel-'' @ i)"

text \<open>
  A comparator is consistent when it is a total preorder, as a collation is.
\<close>

definition consistent :: "(string \<Rightarrow> string \<Rightarrow> int) \<Rightarrow> bool" where
  "consistent cmp \<longleftrightarrow>
     (\<forall>a b. cmp a b \<le> 0 \<or> cmp b a \<le> 0) \<and>
     (\<forall>a b c. cmp a b \<le> 0 \<longrightarrow> cmp b c \<le> 0 \<longrightarrow> cmp a c \<le> 0)"

text \<open>Comparison of the byte lists, one consistent comparator.\<close>

definition codeunit_compare :: "string \<Rightarrow> string \<Rightarrow> int" where
  "codeunit_compare a b = (if a < b then - 1 else if a = b then 0 else 1)"

section \<open>The search API and the webhook\<close>

text \<open>
  The body of a search.messages response:
  \<^verbatim>\<open>{ok, error?, messages: {matches: [...], pagination: {page_count, total_count}}}\<close>.
\<close>

record slack_pagination =
  page_count :: "int option"
  total_count :: "int option"

record slack_messages =
  matches :: "match list option"
  pagination :: "slack_pagination option"

record slack_response =
  ok :: "bool option"
  error :: "string option"
  messages :: "slack_messages option"

text \<open>
  The request of one page:
  \<^verbatim>\<open>https://slack.com/api/search.messages?query=...&count=100&page=${page}\<close> with the
  header \<^verbatim>\<open>Authorization: Bearer ${token}\<close>. \<open>req_query\<close> is the query as it stands in the
  URL, percent-encoded.
\<close>

record search_request =
  req_query :: string
  req_count :: nat
  req_page :: nat
  req_bearer :: string

text \<open>
  The text of a search response, as \<^verbatim>\<open>JSON.parse\<close> sees it: not JSON at all, or the JSON
  of a response object. A fetch raises or returns a response; of the webhook's response the
  code reads the status code and the text.
\<close>

datatype search_body = NotJson string | Json slack_response

datatype 'a fetch = FetchThrows | Responded 'a

record http_response =
  status_code :: int
  content_text :: string

section \<open>Effects: the event trace and raised errors\<close>

text \<open>
  The code's effects are the lines it logs, the search requests it issues and the webhook
  posts it makes. A run is modelled by the chronological trace of these events together
  with its outcome: the returned value, or the error that was raised and that nothing in
  the code catches. The trace up to a raise is kept.

  \<^item> \<open>URIError\<close>: \<^verbatim>\<open>encodeURIComponent\<close> on a string that holds a lone surrogate;
  \<^item> \<open>FetchError\<close>: \<^verbatim>\<open>UrlFetchApp.fetch\<close> raised (\<^verbatim>\<open>muteHttpExceptions\<close> silences HTTP
    status codes only, not a failure to get any response);
  \<^item> \<open>SyntaxError\<close>: \<^verbatim>\<open>JSON.parse\<close> on a text that is not JSON;
  \<^item> \<open>TypeError\<close>: a property read on \<^verbatim>\<open>undefined\<close> or \<^verbatim>\<open>null\<close>.
\<close>

datatype js_error = URIError | FetchError | SyntaxError | TypeError

text \<open>
  The texts posted to the webhook and the log lines are kept as their template and the
  values interpolated into it; the fixed wording is not reproduced. \<open>NotFoundText\<close> is
  the short message sent when the search returned nothing, \<open>ReportText\<close> the report with
  the date, the number of messages and one bullet per channel, \<open>RawText\<close> any other text.
  \<open>Requested\<close> and \<open>Posted\<close> record the call to \<^verbatim>\<open>UrlFetchApp.fetch\<close>, whether or not it
  returns.
\<close>

datatype slack_text =
    RawText string
  | NotFoundText string
  | ReportText string nat "channel_summary list"

datatype log_entry =
    ConfigMissing \<comment> \<open>the line logged when a secret is missing\<close>
  | QueryInitiated string \<comment> \<open>\<^verbatim>\<open>[DEBUG] Search Query Initiated: ${query}\<close>\<close>
  | NoMessagesFound \<comment> \<open>\<^verbatim>\<open>[DEBUG] No messages found for the query.\<close>\<close>
  | SearchStart string \<comment> \<open>\<^verbatim>\<open>[DEBUG] Starting Slack Search with query: ${query}\<close>\<close>
  | ApiError "string option" \<comment> \<open>\<^verbatim>\<open>[ERROR] Slack API Error: ${resJson.error}\<close>\<close>
  | InvalidAuthNote \<comment> \<open>\<^verbatim>\<open>[ERROR] Token may be invalid or expired.\<close>\<close>
  | TotalHits "int option" \<comment> \<open>\<^verbatim>\<open>[DEBUG] Total hits on Slack: ${totalCount}\<close>\<close>
  | PageFound nat nat \<comment> \<open>\<^verbatim>\<open>[DEBUG] Page ${page}: Found ${matches.length} matches.\<close>\<close>
  | SampleMatch "string option" "string option" string
      \<comment> \<open>\<^verbatim>\<open>[DEBUG] Sample Match - Channel: ${name} (${id}), Text fragment: ${...}...\<close>,
          with the name, the id and the text whose first 30 code units the line shows\<close>
  | MaxPageWarning \<comment> \<open>\<^verbatim>\<open>[WARN] Reached maximum page limit (5). Cutting off.\<close>\<close>
  | SearchCompleted nat
      \<comment> \<open>\<^verbatim>\<open>[DEBUG] Completed search. Total messages collected: ${allMessages.length}\<close>\<close>
  | PostSucceeded \<comment> \<open>the line logged after a post answered with status 200\<close>
  | PostFailed int string \<comment> \<open>the failure line, with the status code and the response text\<close>
  | TriggerRegistered \<comment> \<open>the line logged after the daily trigger is created\<close>

datatype event =
    Logged log_entry
  | Requested search_request
  | Posted string slack_text

type_synonym 'a action = "event list \<times> (js_error + 'a)"

definition return :: "'a \<Rightarrow> 'a action" where
  "return x = ([], Inr x)"

definition raise :: "js_error \<Rightarrow> 'a action" where
  "raise e = ([], Inl e)"

definition emit :: "event \<Rightarrow> unit action" where
  "emit ev = ([ev], Inr ())"

text \<open>Sequencing: the second part runs only if the first did not raise.\<close>

definition and_then :: "'a action \<Rightarrow> ('a \<Rightarrow> 'b action) \<Rightarrow> 'b action" where
  "and_then m f =
     (case m of
        (tr, Inl e) \<Rightarrow> (tr, Inl e)
      | (tr, Inr x) \<Rightarrow> (case f x of (tr', r) \<Rightarrow> (tr @ tr', r)))"

section \<open>searchSlackMessages\<close>

definition JSON_parse :: "search_body \<Rightarrow> js_error + slack_response" where
  "JSON_parse b = (case b of NotJson s \<Rightarrow> Inl SyntaxError | Json r \<Rightarrow> Inr r)"

text \<open>
  \<^verbatim>\<open>encodeURIComponent\<close> raises on a string that holds a lone surrogate. Otherwise it
  leaves the letters, the digits and \<^verbatim>\<open>- _ . ! ~ * ' ( )\<close> as they are and writes every
  other byte of the UTF-8 form as \<^verbatim>\<open>%\<close> and two upper-case hexadecimal digits.
\<close>

fun lone_surrogate :: "string \<Rightarrow> bool" where
  "lone_surrogate (c # d # cs) =
     ((c = CHR 0xED \<and> (0xA0::nat) \<le> of_char d \<and> (of_char d :: nat) \<le> 0xBF)
      \<or> lone_surrogate (d # cs))"
| "lone_surrogate cs = False"

definition unreserved :: "char \<Rightarrow> bool" where
  "unreserved c \<longleftrightarrow>
     c \<in> set (''ABCDEFGHIJKLMNOPQRSTUVWXYZabcdefghijklmnopqrstuvwxyz0123456789-_.!~*()''
               @ [CHR 0x27])"

definition hex_digit :: "nat \<Rightarrow> char" where
  "hex_digit n = ''0123456789ABCDEF'' ! (n mod 16)"

definition percent_encode :: "char \<Rightarrow> string" where
  "percent_encode c =
     (if unreserved c then [c]
      else [CHR ''%'', hex_digit (of_char c div 16), hex_digit (of_char c mod 16)])"

definition encoded :: "string \<Rightarrow> string" where
  "encoded s = concat (map percent_encode s)"

definition encodeURIComponent :: "string \<Rightarrow> js_error + string" where
  "encodeURIComponent s = (if lone_surrogate s then Inl URIError else Inr (encoded s))"

text \<open>
  \<^verbatim>\<open>const url = `https://slack.com/api/search.messages?query=${encodeURIComponent(query)}&count=100&page=${page}`;
  const response = UrlFetchApp.fetch(url, options);
  const resString = response.getContentText();
  const resJson = JSON.parse(resString);\<close>

  \<open>page_request\<close> is the request the code builds for a query that can be encoded.
\<close>

definition page_request :: "string \<Rightarrow> string \<Rightarrow> nat \<Rightarrow> search_request" where
  "page_request token query page =
     \<lparr>req_query = encoded query, req_count = 100, req_page = page, req_bearer = token\<rparr>"

definition fetch_page ::
  "(search_request \<Rightarrow> search_body fetch) \<Rightarrow> string \<Rightarrow> string \<Rightarrow> nat \<Rightarrow> slack_response action" where
  "fetch_page api token query page =
     (case encodeURIComponent query of
        Inl e \<Rightarrow> raise e
      | Inr q \<Rightarrow>
          (let req = \<lparr>req_query = q, req_count = 100, req_page = page, req_bearer = token\<rparr>
           in case api req of
                FetchThrows \<Rightarrow> ([Requested req], Inl FetchError)
              | Responded b \<Rightarrow> ([Requested req], JSON_parse b)))"

text \<open>
  The loop body from the test of \<^verbatim>\<open>resJson.ok\<close> down to the read of \<^verbatim>\<open>page_count\<close>. It
  breaks out of the loop on a response that is not ok, and otherwise hands on the page's
  matches and the new \<^verbatim>\<open>pageCount\<close>.
\<close>

datatype page_result = Break | Page "match list" "int option"

definition process_page :: "nat \<Rightarrow> slack_response \<Rightarrow> page_result action" where
  "process_page page resJson =
     (if ok resJson \<noteq> Some True then
        and_then (emit (Logged (ApiError (error resJson)))) (\<lambda>_.
        and_then (if error resJson = Some ''invalid_auth'' then emit (Logged InvalidAuthNote)
                  else return ()) (\<lambda>_.
        return Break))
      else
        case messages resJson of
          None \<Rightarrow> raise TypeError
        | Some msgs \<Rightarrow>
            and_then (if page = 1 then
                        (case pagination msgs of
                           None \<Rightarrow> raise TypeError
                         | Some pg \<Rightarrow> emit (Logged (TotalHits (total_count pg))))
                      else return ()) (\<lambda>_.
            let ms = (case matches msgs of None \<Rightarrow> [] | Some xs \<Rightarrow> xs) in
            and_then (emit (Logged (PageFound page (length ms)))) (\<lambda>_.
            and_then (case ms of
                        [] \<Rightarrow> return ()
                      | sample # _ \<Rightarrow>
                          (case channel sample of
                             None \<Rightarrow> raise TypeError
                           | Some ch \<Rightarrow>
                               (case msg_text sample of
                                  None \<Rightarrow> raise TypeError
                                | Some t \<Rightarrow>
                                    emit (Logged (SampleMatch (ch_name ch) (ch_id ch) t)))))
              (\<lambda>_.
            case pagination msgs of
              None \<Rightarrow> raise TypeError
            | Some pg \<Rightarrow> return (Page ms (page_count pg))))))"

text \<open>
  \<^verbatim>\<open>page <= pageCount\<close>: false when \<^verbatim>\<open>page_count\<close> was absent (\<^verbatim>\<open>undefined\<close> compares false
  with every number, and \<^verbatim>\<open>null\<close> counts as 0, below every page number).
\<close>

definition page_le :: "nat \<Rightarrow> int option \<Rightarrow> bool" where
  "page_le page pageCount = (case pageCount of None \<Rightarrow> False | Some n \<Rightarrow> int page \<le> n)"

text \<open>
  The \<^verbatim>\<open>do ... while (page <= pageCount)\<close> loop, entered with the current \<^verbatim>\<open>page\<close> and
  \<^verbatim>\<open>allMessages\<close>. After \<^verbatim>\<open>page++\<close> the cap \<^verbatim>\<open>if (page > 5)\<close> is tested before the loop
  condition. The initial \<^verbatim>\<open>pageCount = 1\<close> is never read: the body assigns \<^verbatim>\<open>pageCount\<close>
  before the condition is first tested. The recursion stops because \<open>5 - page\<close> decreases.
\<close>

function search_pages ::
  "(search_request \<Rightarrow> search_body fetch) \<Rightarrow> string \<Rightarrow> string \<Rightarrow> nat \<Rightarrow> match list
     \<Rightarrow> match list action" where
  "search_pages api token query page allMessages =
     (case fetch_page api token query page of
        (tr, Inl e) \<Rightarrow> (tr, Inl e)
      | (tr, Inr resJson) \<Rightarrow>
          (case process_page page resJson of
             (tr2, Inl e) \<Rightarrow> (tr @ tr2, Inl e)
           | (tr2, Inr Break) \<Rightarrow> (tr @ tr2, Inr allMessages)
           | (tr2, Inr (Page ms pageCount)) \<Rightarrow>
               if page + 1 > 5 then
                 (tr @ tr2 @ [Logged MaxPageWarning], Inr (allMessages @ ms))
               else if page_le (page + 1) pageCount then
                 (case search_pages api token query (page + 1) (allMessages @ ms) of
                    (tr3, r) \<Rightarrow> (tr @ tr2 @ tr3, r))
               else (tr @ tr2, Inr (allMessages @ ms))))"
  by pat_completeness auto
termination
  by (relation "measure (\<lambda>(api, token, query, page, allMessages). 5 - page)") auto

declare search_pages.simps [simp del]

definition searchSlackMessages ::
  "(search_request \<Rightarrow> search_body fetch) \<Rightarrow> string \<Rightarrow> string \<Rightarrow> match list action" where
  "searchSlackMessages api token query =
     and_then (emit (Logged (SearchStart query))) (\<lambda>_.
     and_then (search_pages api token query 1 []) (\<lambda>allMessages.
     and_then (emit (Logged (SearchCompleted (length allMessages)))) (\<lambda>_.
     return allMessages)))"

section \<open>postToSlack\<close>

definition postToSlack ::
  "(string \<Rightarrow> slack_text \<Rightarrow> http_response fetch) \<Rightarrow> string \<Rightarrow> slack_text \<Rightarrow> unit action" where
  "postToSlack webhook webhookUrl txt =
     (case webhook webhookUrl txt of
        FetchThrows \<Rightarrow> ([Posted webhookUrl txt], Inl FetchError)
      | Responded response \<Rightarrow>
          (let statusCode = status_code response in
           if statusCode = 200 then
             ([Posted webhookUrl txt, Logged PostSucceeded], Inr ())
           else
             ([Posted webhookUrl txt,
               Logged (PostFailed statusCode (content_text response))], Inr ())))"

section \<open>reportYesterdayMentions\<close>

text \<open>
  What the entry function takes from its surroundings: the script properties, the two
  formatted dates (yesterday and today), the collation, the search API and the webhook.
\<close>

record environment =
  properties :: "string \<Rightarrow> string option"
  dateString :: string
  todayString :: string
  localeCompare :: "string \<Rightarrow> string \<Rightarrow> int"
  search_api :: "search_request \<Rightarrow> search_body fetch"
  webhook :: "string \<Rightarrow> slack_text \<Rightarrow> http_response fetch"

definition SLACK_USER_TOKEN_KEY :: string where
  "SLACK_USER_TOKEN_KEY = ''SLACK_USER_TOKEN''"

definition SLACK_USER_ID_KEY :: string where
  "SLACK_USER_ID_KEY = ''SLACK_USER_ID''"

text \<open>
  The query; the second quoted name of the source is written as its UTF-8 bytes.
\<close>

definition search_query :: "string \<Rightarrow> string \<Rightarrow> string \<Rightarrow> string" where
  "search_query userId after before =
     ''(to:me OR <@'' @ userId @ ''> OR '' @ [CHR 0x22] @ ''Taichi Yoda'' @ [CHR 0x22]
       @ '' OR '' @ [CHR 0x22]
       @ [CHR 0xE4, CHR 0xBE, CHR 0x9D, CHR 0xE7, CHR 0x94, CHR 0xB0,
          CHR 0xE5, CHR 0xA4, CHR 0xAA, CHR 0xE4, CHR 0xB8, CHR 0x80]
       @ [CHR 0x22] @ '') after:'' @ after @ '' before:'' @ before"

definition reportYesterdayMentions :: "environment \<Rightarrow> unit action" where
  "reportYesterdayMentions env =
     (let userToken = properties env SLACK_USER_TOKEN_KEY;
          userId = properties env SLACK_USER_ID_KEY;
          webhookUrl = properties env ''SLACK_WEBHOOK_URL_test''
      in
      if \<not> truthy userToken \<or> \<not> truthy userId \<or> \<not> truthy webhookUrl then
        emit (Logged ConfigMissing)
      else
        let query = search_query (the userId) (dateString env) (todayString env) in
        and_then (emit (Logged (QueryInitiated query))) (\<lambda>_.
        and_then (searchSlackMessages (search_api env) (the userToken) query) (\<lambda>messages.
        if length messages = 0 then
          and_then (emit (Logged NoMessagesFound)) (\<lambda>_.
          postToSlack (webhook env) (the webhookUrl) (NotFoundText (dateString env)))
        else
          let channelList = aggregateMentions (localeCompare env) messages in
          postToSlack (webhook env) (the webhookUrl)
            (ReportText (dateString env) (length messages) channelList))))"

section \<open>setDailyMentionTrigger\<close>

text \<open>
  The project's triggers are the scheduler's state. The code reads of a trigger only its
  handler function; the schedule is what \<^verbatim>\<open>timeBased().atHour(8).everyDays(1)\<close> sets:
  \<open>AtHourEveryDays h d\<close> fires at hour \<open>h\<close> every \<open>d\<close> days, so \<open>AtHourEveryDays 8 1\<close> is the
  daily trigger of the source. \<^verbatim>\<open>ScriptApp.deleteTrigger(t)\<close> takes that one trigger out of the
  project.
\<close>

datatype schedule = AtHourEveryDays nat nat | EveryMinutes nat | OtherSchedule string

record trigger =
  handlerFunction :: string
  trigger_schedule :: schedule

definition deleteTrigger :: "trigger \<Rightarrow> trigger list \<Rightarrow> trigger list" where
  "deleteTrigger t project = remove1 t project"

definition newDailyTrigger :: trigger where
  "newDailyTrigger =
     \<lparr>handlerFunction = ''reportYesterdayMentions'', trigger_schedule = AtHourEveryDays 8 1\<rparr>"

text \<open>
  \<^verbatim>\<open>triggers.forEach((t) => { if (t.getHandlerFunction() === 'reportYesterdayMentions')
  ScriptApp.deleteTrigger(t); })\<close> runs over the list read at the start, while
  \<open>deleteTrigger\<close> changes the project's list.
\<close>

definition delete_mention_triggers :: "trigger list \<Rightarrow> trigger list \<Rightarrow> trigger list" where
  "delete_mention_triggers triggers project =
     foldl (\<lambda>p t. if handlerFunction t = ''reportYesterdayMentions''
                   then deleteTrigger t p else p) project triggers"

text \<open>The new trigger is then added to the project and the registration is logged.\<close>

definition setDailyMentionTrigger :: "trigger list \<Rightarrow> trigger list \<times> event list" where
  "setDailyMentionTrigger project =
     (let triggers = project;
          project' = delete_mention_triggers triggers project
      in (project' @ [newDailyTrigger], [Logged TriggerRegistered]))"

section \<open>Notions used in the statements\<close>

text \<open>The pages requested and the lines logged in a trace, in order.\<close>

definition requested_pages :: "event list \<Rightarrow> nat list" where
  "requested_pages tr = concat (map (\<lambda>ev. case ev of Requested r \<Rightarrow> [req_page r] | _ \<Rightarrow> []) tr)"

definition logged :: "event list \<Rightarrow> log_entry list" where
  "logged tr = concat (map (\<lambda>ev. case ev of Logged l \<Rightarrow> [l] | _ \<Rightarrow> []) tr)"

text \<open>
  An input in which every channel id carries a single name, and one in which the names of
  different channel ids never compare equal.
\<close>

definition single_named :: "match list \<Rightarrow> bool" where
  "single_named ms \<longleftrightarrow>
     (\<forall>m\<in>set ms. \<forall>m'\<in>set ms. match_id m \<noteq> None \<longrightarrow> match_id m' = match_id m \<longrightarrow>
        display_name (the (match_id m)) m' = display_name (the (match_id m)) m)"

definition separated :: "(string \<Rightarrow> string \<Rightarrow> int) \<Rightarrow> match list \<Rightarrow> bool" where
  "separated cmp ms \<longleftrightarrow>
     (\<forall>m\<in>set ms. \<forall>m'\<in>set ms.
        match_id m \<noteq> None \<longrightarrow> match_id m' \<noteq> None \<longrightarrow> match_id m \<noteq> match_id m' \<longrightarrow>
        \<not> (cmp (display_name (the (match_id m)) m) (display_name (the (match_id m')) m') \<le> 0 \<and>
           cmp (display_name (the (match_id m')) m') (display_name (the (match_id m)) m) \<le> 0))"

text \<open>
  Two names tie when each compares before or equal to the other. \<open>first_seen\<close> lists the
  channel ids of an input in the order in which they first occur.
\<close>

definition ties :: "(string \<Rightarrow> string \<Rightarrow> int) \<Rightarrow> string \<Rightarrow> string \<Rightarrow> bool" where
  "ties cmp a b \<longleftrightarrow> cmp a b \<le> 0 \<and> cmp b a \<le> 0"

fun first_seen :: "match list \<Rightarrow> string list" where
  "first_seen [] = []"
| "first_seen (m # ms) =
     (case match_id m of
        None \<Rightarrow> first_seen ms
      | Some i \<Rightarrow> i # removeAll i (first_seen ms))"

text \<open>
  The request of a page is sent (the query can be encoded) and the API answers it with the
  JSON of a response; the matches and the \<open>page_count\<close> such a response carries.
\<close>

definition answers ::
  "(search_request \<Rightarrow> search_body fetch) \<Rightarrow> string \<Rightarrow> string \<Rightarrow> nat \<Rightarrow> slack_response \<Rightarrow> bool" where
  "answers api token query page r \<longleftrightarrow>
     \<not> lone_surrogate query \<and> api (page_request token query page) = Responded (Json r)"

definition page_matches :: "slack_response \<Rightarrow> match list" where
  "page_matches r =
     (case messages r of
        None \<Rightarrow> []
      | Some msgs \<Rightarrow> (case matches msgs of None \<Rightarrow> [] | Some xs \<Rightarrow> xs))"

definition reported_page_count :: "slack_response \<Rightarrow> int option" where
  "reported_page_count r =
     (case messages r of
        None \<Rightarrow> None
      | Some msgs \<Rightarrow> (case pagination msgs of None \<Rightarrow> None | Some pg \<Rightarrow> page_count pg))"

text \<open>
  A successful page is a response the loop body works through without raising: it is ok,
  it has the \<open>messages\<close> and \<open>pagination\<close> objects, and its first match, if there is one,
  has the channel and the text that the sample line reads.
\<close>

definition loggable :: "match list \<Rightarrow> bool" where
  "loggable ms =
     (case ms of [] \<Rightarrow> True | sample # _ \<Rightarrow> channel sample \<noteq> None \<and> msg_text sample \<noteq> None)"

definition success_page :: "slack_response \<Rightarrow> bool" where
  "success_page r \<longleftrightarrow>
     ok r = Some True \<and>
     (case messages r of
        None \<Rightarrow> False
      | Some msgs \<Rightarrow> pagination msgs \<noteq> None) \<and>
     loggable (page_matches r)"

text \<open>
  Page \<open>p\<close> is answered by the successful page \<open>r p\<close>, whose \<open>page_count\<close> lets the loop go on
  to page \<open>p + 1\<close>; the trace and the matches of a run of such pages.
\<close>

definition continues ::
  "(search_request \<Rightarrow> search_body fetch) \<Rightarrow> string \<Rightarrow> string \<Rightarrow> (nat \<Rightarrow> slack_response) \<Rightarrow> nat \<Rightarrow> bool" where
  "continues api token query r p \<longleftrightarrow>
     answers api token query p (r p) \<and> success_page (r p) \<and>
     page_le (p + 1) (reported_page_count (r p))"

definition pages_trace :: "string \<Rightarrow> string \<Rightarrow> (nat \<Rightarrow> slack_response) \<Rightarrow> nat list \<Rightarrow> event list" where
  "pages_trace token query r ps =
     concat (map (\<lambda>p. Requested (page_request token query p) # fst (process_page p (r p))) ps)"

definition pages_matches :: "(nat \<Rightarrow> slack_response) \<Rightarrow> nat list \<Rightarrow> match list" where
  "pages_matches r ps = concat (map (\<lambda>p. page_matches (r p)) ps)"

definition over_five :: "int option \<Rightarrow> bool" where
  "over_five pageCount = (case pageCount of None \<Rightarrow> False | Some n \<Rightarrow> 5 < n)"





text \<open>A trigger bound to the report handler, and the project after one installation.\<close>

definition bound_to_report :: "trigger \<Rightarrow> bool" where
  "bound_to_report t \<longleftrightarrow> handlerFunction t = ''reportYesterdayMentions''"

definition install :: "trigger list \<Rightarrow> trigger list" where
  "install project = fst (setDailyMentionTrigger project)"

section \<open>Example inputs\<close>

definition in_channel :: "string \<Rightarrow> string option \<Rightarrow> match" where
  "in_channel i name =
     \<lparr>channel = Some \<lparr>ch_id = Some i, ch_name = name\<rparr>, msg_text = Some ''hello''\<rparr>"

definition no_channel :: match where
  "no_channel = \<lparr>channel = None, msg_text = Some ''hello''\<rparr>"

definition sample_match :: match where
  "sample_match = in_channel ''C1'' (Some ''general'')"

text \<open>An ok response with \<open>n\<close> matches, and a response that is not ok.\<close>

definition result_page :: "nat \<Rightarrow> int \<Rightarrow> int \<Rightarrow> slack_response" where
  "result_page n pages hits =
     \<lparr>ok = Some True, error = None,
      messages = Some \<lparr>matches = Some (replicate n sample_match),
                       pagination = Some \<lparr>page_count = Some pages, total_count = Some hits\<rparr>\<rparr>\<rparr>"

definition error_page :: "string \<Rightarrow> slack_response" where
  "error_page e = \<lparr>ok = Some False, error = Some e, messages = None\<rparr>"

text \<open>
  Mock APIs: three pages of 100, 100 and 37 matches; the same with page 2 reporting a
  \<open>page_count\<close> of 2; ten full pages; ten pages of 101 matches; five full pages; an
  invalid token; an HTML error page; an ok page whose only match has no channel.
\<close>

definition three_pages_api :: "search_request \<Rightarrow> search_body fetch" where
  "three_pages_api req =
     Responded (Json (result_page (if req_page req = 3 then 37 else 100) 3 237))"

definition shrinking_api :: "search_request \<Rightarrow> search_body fetch" where
  "shrinking_api req =
     Responded (Json (result_page (if req_page req = 3 then 37 else 100)
                        (if req_page req = 2 then 2 else 3) 237))"

definition ten_pages_api :: "search_request \<Rightarrow> search_body fetch" where
  "ten_pages_api req = Responded (Json (result_page 100 10 1000))"

definition oversized_api :: "search_request \<Rightarrow> search_body fetch" where
  "oversized_api req = Responded (Json (result_page 101 10 1010))"

definition five_pages_api :: "search_request \<Rightarrow> search_body fetch" where
  "five_pages_api req = Responded (Json (result_page 100 5 500))"

definition invalid_auth_api :: "search_request \<Rightarrow> search_body fetch" where
  "invalid_auth_api req = Responded (Json (error_page ''invalid_auth''))"


definition no_channel_api :: "search_request \<Rightarrow> search_body fetch" where
  "no_channel_api req =
     Responded (Json \<lparr>ok = Some True, error = None,
       messages = Some \<lparr>matches = Some [no_channel],
                        pagination = Some \<lparr>page_count = Some 1, total_count = Some 1\<rparr>\<rparr>\<rparr>)"

definition forbidden_webhook :: "string \<Rightarrow> slack_text \<Rightarrow> http_response fetch" where
  "forbidden_webhook url txt = Responded \<lparr>status_code = 403, content_text = ''invalid_token''\<rparr>"

definition accepting_webhook :: "string \<Rightarrow> slack_text \<Rightarrow> http_response fetch" where
  "accepting_webhook url txt = Responded \<lparr>status_code = 200, content_text = ''ok''\<rparr>"

text \<open>
  Script properties with every secret set; the same with a user id that is one lone
  surrogate; environments built from them.
\<close>

definition complete_properties :: "string \<Rightarrow> string option" where
  "complete_properties key =
     (if key = SLACK_USER_TOKEN_KEY then Some ''xoxp-1''
      else if key = SLACK_USER_ID_KEY then Some ''U123''
      else if key = ''SLACK_WEBHOOK_URL_test'' then Some ''https://hooks.example/T0''
      else None)"

definition surrogate_properties :: "string \<Rightarrow> string option" where
  "surrogate_properties key =
     (if key = SLACK_USER_ID_KEY then Some [CHR 0xED, CHR 0xA0, CHR 0x80]
      else complete_properties key)"

definition surrogate_environment :: environment where
  "surrogate_environment =
     \<lparr>properties = surrogate_properties, dateString = ''2024-01-01'',
      todayString = ''2024-01-02'', localeCompare = codeunit_compare,
      search_api = three_pages_api, webhook = accepting_webhook\<rparr>"



definition old_triggers :: "trigger list" where
  "old_triggers =
     [\<lparr>handlerFunction = ''reportYesterdayMentions'', trigger_schedule = AtHourEveryDays 8 1\<rparr>,
      \<lparr>handlerFunction = ''sendSlackNotification'', trigger_schedule = EveryMinutes 5\<rparr>,
      \<lparr>handlerFunction = ''reportYesterdayMentions'', trigger_schedule = AtHourEveryDays 8 1\<rparr>]"

section \<open>Properties of aggregateMentions\<close>

lemma record_channel_id:
  "record_channel cm msg =
     (case match_id msg of None \<Rightarrow> cm | Some i \<Rightarrow> AList.update i (display_name i msg) cm)"
  by (auto simp: record_channel_def match_id_def display_name_def match_name_def truthy_def
      split: option.splits)

lemma foldl_record_keys:
  "fst ` set (foldl record_channel cm ms) = fst ` set cm \<union> {i. \<exists>m\<in>set ms. match_id m = Some i}"
proof (induction ms arbitrary: cm)
  case Nil
  then show ?case by simp
next
  case (Cons m ms)
  show ?case
  proof (cases "match_id m")
    case None
    then show ?thesis using Cons.IH [of cm] by (simp add: record_channel_id)
  next
    case (Some i)
    then show ?thesis using Cons.IH [of "AList.update i (display_name i m) cm"]
      by (auto simp: record_channel_id dom_update)
  qed
qed

lemma foldl_record_distinct:
  "distinct (map fst cm) \<Longrightarrow> distinct (map fst (foldl record_channel cm ms))"
proof (induction ms arbitrary: cm)
  case Nil
  then show ?case by simp
next
  case (Cons m ms)
  then show ?case
    by (cases "match_id m") (simp_all add: record_channel_id distinct_update)
qed

lemma foldl_record_untouched:
  "\<forall>m\<in>set ms. match_id m \<noteq> Some i \<Longrightarrow>
   map_of (foldl record_channel cm ms) i = map_of cm i"
proof (induction ms arbitrary: cm)
  case Nil
  then show ?case by simp
next
  case (Cons m ms)
  then show ?case
    by (cases "match_id m") (auto simp: record_channel_id update_conv')
qed

lemma foldl_record_last:
  assumes "match_id m = Some i" and "\<forall>m'\<in>set post. match_id m' \<noteq> Some i"
  shows "map_of (foldl record_channel cm (pre @ m # post)) i = Some (display_name i m)"
  using assms by (simp add: foldl_record_untouched record_channel_id update_conv')

lemma mset_insert_sorted: "mset (insert_sorted cmp x xs) = add_mset x (mset xs)"
  by (induction xs) auto

lemma mset_array_sort: "mset (array_sort cmp xs) = mset xs"
  by (induction xs) (auto simp: array_sort_def mset_insert_sorted)

lemma set_array_sort: "set (array_sort cmp xs) = set xs"
  using mset_array_sort [of cmp xs] by (metis set_mset_mset)

lemma set_insert_sorted: "set (insert_sorted cmp x xs) = insert x (set xs)"
  by (induction xs) auto

lemma sorted_insert_sorted:
  assumes total: "\<And>a b. cmp a b \<le> 0 \<or> cmp b a \<le> 0"
    and trans: "\<And>a b c. cmp a b \<le> 0 \<Longrightarrow> cmp b c \<le> 0 \<Longrightarrow> cmp a c \<le> 0"
    and "sorted_wrt (\<lambda>a b. cmp a b \<le> 0) xs"
  shows "sorted_wrt (\<lambda>a b. cmp a b \<le> 0) (insert_sorted cmp x xs)"
  using assms(3)
proof (induction xs)
  case Nil
  then show ?case by simp
next
  case (Cons y ys)
  show ?case
  proof (cases "cmp x y \<le> 0")
    case True
    then have "\<forall>z\<in>set ys. cmp x z \<le> 0" using Cons.prems trans by auto
    with True Cons.prems show ?thesis by simp
  next
    case False
    then have "cmp y x \<le> 0" using total [of x y] by simp
    with False Cons show ?thesis by (auto simp: set_insert_sorted)
  qed
qed

lemma sorted_array_sort:
  assumes "\<And>a b. cmp a b \<le> 0 \<or> cmp b a \<le> 0"
    and "\<And>a b c. cmp a b \<le> 0 \<Longrightarrow> cmp b c \<le> 0 \<Longrightarrow> cmp a c \<le> 0"
  shows "sorted_wrt (\<lambda>a b. cmp a b \<le> 0) (array_sort cmp xs)"
proof (induction xs)
  case Nil
  then show ?case by (simp add: array_sort_def)
next
  case (Cons x xs)
  have "array_sort cmp (x # xs) = insert_sorted cmp x (array_sort cmp xs)"
    by (simp add: array_sort_def)
  with Cons show ?case using sorted_insert_sorted [OF assms] by simp
qed

lemma sorted_wrt_unique:
  assumes "sorted_wrt R xs" and "sorted_wrt R ys"
    and "distinct xs" and "distinct ys" and "set xs = set ys"
    and "\<And>a b. a \<in> set xs \<Longrightarrow> b \<in> set xs \<Longrightarrow> R a b \<Longrightarrow> R b a \<Longrightarrow> a = b"
  shows "xs = ys"
  using assms
proof (induction xs arbitrary: ys)
  case Nil
  then show ?case by simp
next
  case (Cons x xs)
  then obtain y ys' where ys: "ys = y # ys'" by (cases ys) auto
  have "x = y"
  proof (rule ccontr)
    assume ne: "x \<noteq> y"
    then have "x \<in> set ys'" and "y \<in> set xs" using Cons.prems(5) ys by auto
    then have "R y x" and "R x y" using Cons.prems(1,2) ys by auto
    moreover have "x \<in> set (x # xs)" and "y \<in> set (x # xs)" using \<open>y \<in> set xs\<close> by auto
    ultimately show False using Cons.prems(6) ne by blast
  qed
  moreover have "xs = ys'"
  proof (rule Cons.IH)
    show "sorted_wrt R xs" using Cons.prems(1) by simp
    show "sorted_wrt R ys'" using Cons.prems(2) ys by simp
    show "distinct xs" using Cons.prems(3) by simp
    show "distinct ys'" using Cons.prems(4) ys by simp
    show "set xs = set ys'" using Cons.prems(3,4,5) ys \<open>x = y\<close> by auto
    show "\<And>a b. a \<in> set xs \<Longrightarrow> b \<in> set xs \<Longrightarrow> R a b \<Longrightarrow> R b a \<Longrightarrow> a = b"
      using Cons.prems(6) by simp
  qed
  ultimately show ?case using ys by simp
qed

lemma aggregate_alt:
  "aggregateMentions lc ms =
     array_sort (\<lambda>a b. lc (cs_name a) (cs_name b)) (summaries (foldl record_channel [] ms))"
  by (simp add: aggregateMentions_def)

lemma ids_summaries: "map cs_id (summaries cm) = map fst cm"
  by (induction cm) (auto simp: summaries_def)

lemma set_aggregate:
  "set (aggregateMentions lc ms) =
     {\<lparr>cs_id = i, cs_name = n\<rparr> | i n. map_of (foldl record_channel [] ms) i = Some n}"
proof -
  let ?cm = "foldl record_channel [] ms"
  have d: "distinct (map fst ?cm)" by (rule foldl_record_distinct) simp
  have "set (aggregateMentions lc ms) = (\<lambda>(i, n). \<lparr>cs_id = i, cs_name = n\<rparr>) ` set ?cm"
    by (simp add: aggregate_alt set_array_sort summaries_def)
  also have "\<dots> = {\<lparr>cs_id = i, cs_name = n\<rparr> | i n. (i, n) \<in> set ?cm}" by auto
  also have "\<dots> = {\<lparr>cs_id = i, cs_name = n\<rparr> | i n. map_of ?cm i = Some n}"
    using d by (simp add: map_of_eq_Some_iff)
  finally show ?thesis .
qed

lemma mset_ids_aggregate:
  "mset (map cs_id (aggregateMentions lc ms)) = mset (map fst (foldl record_channel [] ms))"
proof -
  have "mset (map cs_id (aggregateMentions lc ms))
          = image_mset cs_id (mset (aggregateMentions lc ms))" by simp
  also have "\<dots> = image_mset cs_id (mset (summaries (foldl record_channel [] ms)))"
    by (simp only: aggregate_alt mset_array_sort)
  also have "\<dots> = mset (map fst (foldl record_channel [] ms))"
    by (metis mset_map ids_summaries)
  finally show ?thesis .
qed

lemma ids_aggregate:
  "distinct (map cs_id (aggregateMentions lc ms)) \<and>
   set (map cs_id (aggregateMentions lc ms)) = {i. \<exists>m\<in>set ms. match_id m = Some i}"
proof -
  let ?cm = "foldl record_channel [] ms"
  have d: "distinct (map fst ?cm)" by (rule foldl_record_distinct) simp
  have m: "mset (map cs_id (aggregateMentions lc ms)) = mset (map fst ?cm)"
    by (rule mset_ids_aggregate)
  have "distinct (map cs_id (aggregateMentions lc ms))"
    using d mset_eq_imp_distinct_iff [OF m] by simp
  moreover have "set (map cs_id (aggregateMentions lc ms)) = set (map fst ?cm)"
    using m by (rule mset_eq_setD)
  moreover have "set (map fst ?cm) = {i. \<exists>m\<in>set ms. match_id m = Some i}"
    using foldl_record_keys [of "[]" ms] by simp
  ultimately show ?thesis by simp
qed

lemma last_match_in_aggregate:
  assumes "match_id m = Some i" and "\<forall>m'\<in>set post. match_id m' \<noteq> Some i"
  shows "\<lparr>cs_id = i, cs_name = display_name i m\<rparr> \<in> set (aggregateMentions lc (pre @ m # post))"
  using foldl_record_last [OF assms, of "[]" pre] by (simp add: set_aggregate)

lemma in_aggregate_iff:
  "c \<in> set (aggregateMentions lc ms) \<longleftrightarrow>
     (\<exists>pre m post. ms = pre @ m # post \<and> match_id m = Some (cs_id c) \<and>
        (\<forall>m'\<in>set post. match_id m' \<noteq> Some (cs_id c)) \<and> cs_name c = display_name (cs_id c) m)"
proof
  assume c: "c \<in> set (aggregateMentions lc ms)"
  then have "cs_id c \<in> set (map cs_id (aggregateMentions lc ms))" by simp
  then have "\<exists>m\<in>set ms. match_id m = Some (cs_id c)" using ids_aggregate [of lc ms] by simp
  then obtain pre m post where sp: "ms = pre @ m # post" "match_id m = Some (cs_id c)"
    "\<forall>m'\<in>set post. match_id m' \<noteq> Some (cs_id c)"
    using split_list_last_prop [of ms "\<lambda>m. match_id m = Some (cs_id c)"] by blast
  have "map_of (foldl record_channel [] ms) (cs_id c) = Some (cs_name c)"
    using c by (auto simp: set_aggregate)
  moreover have "map_of (foldl record_channel [] ms) (cs_id c) = Some (display_name (cs_id c) m)"
    using foldl_record_last [OF sp(2,3), of "[]" pre] sp(1) by simp
  ultimately have "cs_name c = display_name (cs_id c) m" by simp
  with sp show "\<exists>pre m post. ms = pre @ m # post \<and> match_id m = Some (cs_id c) \<and>
        (\<forall>m'\<in>set post. match_id m' \<noteq> Some (cs_id c)) \<and> cs_name c = display_name (cs_id c) m"
    by blast
next
  assume "\<exists>pre m post. ms = pre @ m # post \<and> match_id m = Some (cs_id c) \<and>
        (\<forall>m'\<in>set post. match_id m' \<noteq> Some (cs_id c)) \<and> cs_name c = display_name (cs_id c) m"
  then obtain pre m post where sp: "ms = pre @ m # post" "match_id m = Some (cs_id c)"
    "\<forall>m'\<in>set post. match_id m' \<noteq> Some (cs_id c)" "cs_name c = display_name (cs_id c) m"
    by blast
  have "\<lparr>cs_id = cs_id c, cs_name = display_name (cs_id c) m\<rparr> \<in> set (aggregateMentions lc ms)"
    using last_match_in_aggregate [OF sp(2,3), of lc pre] sp(1) by simp
  with sp(4) show "c \<in> set (aggregateMentions lc ms)" by (cases c) simp
qed

lemma set_aggregate_single_named:
  assumes "single_named ms"
  shows "set (aggregateMentions lc ms) =
           {\<lparr>cs_id = i, cs_name = display_name i m\<rparr> | i m. m \<in> set ms \<and> match_id m = Some i}"
    (is "?L = ?R")
proof (rule set_eqI)
  fix c
  show "c \<in> ?L \<longleftrightarrow> c \<in> ?R"
  proof
    assume "c \<in> ?L"
    then obtain pre m post where "ms = pre @ m # post" "match_id m = Some (cs_id c)"
      "cs_name c = display_name (cs_id c) m"
      using in_aggregate_iff [of c lc ms] by blast
    then have "m \<in> set ms" and "c = \<lparr>cs_id = cs_id c, cs_name = display_name (cs_id c) m\<rparr>"
      and "match_id m = Some (cs_id c)" by simp_all
    then show "c \<in> ?R" by blast
  next
    assume "c \<in> ?R"
    then obtain i m where c: "c = \<lparr>cs_id = i, cs_name = display_name i m\<rparr>"
      and m: "m \<in> set ms" "match_id m = Some i" by blast
    then have "\<exists>m\<in>set ms. match_id m = Some i" by blast
    then obtain pre l post where sp: "ms = pre @ l # post" "match_id l = Some i"
      "\<forall>m'\<in>set post. match_id m' \<noteq> Some i"
      using split_list_last_prop [of ms "\<lambda>m. match_id m = Some i"] by blast
    then have "l \<in> set ms" by simp
    then have "display_name i l = display_name i m"
      using assms m sp(2) unfolding single_named_def by (metis option.sel option.distinct(1))
    then have "\<lparr>cs_id = i, cs_name = display_name i m\<rparr> \<in> set (aggregateMentions lc ms)"
      using last_match_in_aggregate [OF sp(2,3), of lc pre] sp(1) by simp
    with c show "c \<in> ?L" by simp
  qed
qed

lemma distinct_aggregate: "distinct (aggregateMentions lc ms)"
  using ids_aggregate [of lc ms] by (simp add: distinct_map)

lemma sorted_aggregate:
  assumes "consistent lc"
  shows "sorted_wrt (\<lambda>a b. lc (cs_name a) (cs_name b) \<le> 0) (aggregateMentions lc ms)"
proof -
  have t: "\<And>a b. lc (cs_name a) (cs_name b) \<le> 0 \<or> lc (cs_name b) (cs_name a) \<le> 0"
    using assms unfolding consistent_def by blast
  have tr: "\<And>a b c. lc (cs_name a) (cs_name b) \<le> 0 \<Longrightarrow> lc (cs_name b) (cs_name c) \<le> 0
              \<Longrightarrow> lc (cs_name a) (cs_name c) \<le> 0"
    using assms unfolding consistent_def by blast
  show ?thesis unfolding aggregate_alt
    by (rule sorted_array_sort [where cmp = "\<lambda>a b. lc (cs_name a) (cs_name b)", OF t tr])
qed

lemma aggregate_entry_of_match:
  assumes "c \<in> set (aggregateMentions lc ms)"
  shows "\<exists>m\<in>set ms. match_id m = Some (cs_id c) \<and> cs_name c = display_name (cs_id c) m"
proof -
  obtain pre m post where "ms = pre @ m # post" "match_id m = Some (cs_id c)"
    "cs_name c = display_name (cs_id c) m"
    using assms in_aggregate_iff [of c lc ms] by blast
  then have "m \<in> set ms" by simp
  with \<open>match_id m = Some (cs_id c)\<close> \<open>cs_name c = display_name (cs_id c) m\<close>
  show ?thesis by blast
qed

lemma aggregate_same_id:
  assumes "a \<in> set (aggregateMentions lc ms)" and "b \<in> set (aggregateMentions lc ms)"
    and "cs_id a = cs_id b"
  shows "a = b"
proof -
  have "inj_on cs_id (set (aggregateMentions lc ms))"
    using ids_aggregate [of lc ms] by (simp add: distinct_map)
  then show ?thesis using assms by (auto dest: inj_onD)
qed

lemma separated_antisym:
  assumes sep: "separated lc ms"
    and a: "a \<in> set (aggregateMentions lc ms)" and b: "b \<in> set (aggregateMentions lc ms)"
    and ab: "lc (cs_name a) (cs_name b) \<le> 0" and ba: "lc (cs_name b) (cs_name a) \<le> 0"
  shows "a = b"
proof -
  obtain m where m: "m \<in> set ms" "match_id m = Some (cs_id a)"
    "cs_name a = display_name (cs_id a) m"
    using aggregate_entry_of_match [OF a] by blast
  obtain m' where m': "m' \<in> set ms" "match_id m' = Some (cs_id b)"
    "cs_name b = display_name (cs_id b) m'"
    using aggregate_entry_of_match [OF b] by blast
  have "cs_id a = cs_id b"
  proof (rule ccontr)
    assume ne: "cs_id a \<noteq> cs_id b"
    have "match_id m \<noteq> None \<longrightarrow> match_id m' \<noteq> None \<longrightarrow> match_id m \<noteq> match_id m' \<longrightarrow>
        \<not> (lc (display_name (the (match_id m)) m) (display_name (the (match_id m')) m') \<le> 0 \<and>
           lc (display_name (the (match_id m')) m') (display_name (the (match_id m)) m) \<le> 0)"
      using sep m(1) m'(1) unfolding separated_def by blast
    then show False using ne m(2,3) m'(2,3) ab ba by simp
  qed
  with a b show ?thesis by (rule aggregate_same_id)
qed

lemma single_named_cong: "set ms' = set ms \<Longrightarrow> single_named ms' = single_named ms"
  unfolding single_named_def by simp

lemma separated_cong: "set ms' = set ms \<Longrightarrow> separated lc ms' = separated lc ms"
  unfolding separated_def by simp

text \<open>The sort is stable: summaries whose names tie keep the order of the map.\<close>

lemma keys_first_seen:
  "map fst (foldl record_channel cm ms)
     = map fst cm @ filter (\<lambda>i. i \<notin> fst ` set cm) (first_seen ms)"
proof (induction ms arbitrary: cm)
  case Nil
  then show ?case by simp
next
  case (Cons m ms)
  show ?case
  proof (cases "match_id m")
    case None
    then show ?thesis using Cons.IH [of cm] by (simp add: record_channel_id)
  next
    case (Some i)
    let ?cm = "AList.update i (display_name i m) cm"
    have step: "foldl record_channel cm (m # ms) = foldl record_channel ?cm ms"
      using Some by (simp add: record_channel_id)
    have keys: "map fst ?cm = (if i \<in> fst ` set cm then map fst cm else map fst cm @ [i])"
      by (simp add: update_keys)
    have dom: "fst ` set ?cm = insert i (fst ` set cm)"
      by (simp add: dom_update)
    show ?thesis
    proof (cases "i \<in> fst ` set cm")
      case True
      have "filter (\<lambda>j. j \<notin> fst ` set cm) (removeAll i (first_seen ms))
              = filter (\<lambda>j. j \<notin> fst ` set cm) (first_seen ms)"
        using True by (auto simp: removeAll_filter_not_eq intro: filter_cong)
      then show ?thesis
        unfolding step Cons.IH [of ?cm] keys dom using True Some
        by (simp add: insert_absorb)
    next
      case False
      have "filter (\<lambda>j. j \<notin> fst ` set cm) (removeAll i (first_seen ms))
              = filter (\<lambda>j. j \<notin> insert i (fst ` set cm)) (first_seen ms)"
        by (auto simp: removeAll_filter_not_eq intro: filter_cong)
      then show ?thesis
        unfolding step Cons.IH [of ?cm] keys dom using False Some by simp
    qed
  qed
qed

lemma filter_insert_sorted:
  assumes "\<And>a b. P a \<Longrightarrow> P b \<Longrightarrow> cmp a b \<le> 0"
  shows "filter P (insert_sorted cmp x xs) = (if P x then x # filter P xs else filter P xs)"
proof (induction xs)
  case Nil
  then show ?case by simp
next
  case (Cons y ys)
  show ?case
  proof (cases "cmp x y \<le> 0")
    case True
    then show ?thesis by simp
  next
    case False
    then have "\<not> (P x \<and> P y)" using assms by blast
    with False Cons show ?thesis by auto
  qed
qed

lemma filter_array_sort:
  assumes "\<And>a b. P a \<Longrightarrow> P b \<Longrightarrow> cmp a b \<le> 0"
  shows "filter P (array_sort cmp xs) = filter P xs"
proof (induction xs)
  case Nil
  then show ?case by (simp add: array_sort_def)
next
  case (Cons x xs)
  have "array_sort cmp (x # xs) = insert_sorted cmp x (array_sort cmp xs)"
    by (simp add: array_sort_def)
  then show ?case using Cons filter_insert_sorted [of P cmp, OF assms] by simp
qed

lemma map_filter_distinct:
  "distinct (map f xs) \<Longrightarrow>
     map f (filter P xs) = filter (\<lambda>i. \<exists>x\<in>set xs. f x = i \<and> P x) (map f xs)"
proof (induction xs)
  case Nil
  then show ?case by simp
next
  case (Cons x xs)
  then have notin: "f x \<notin> f ` set xs" and d: "distinct (map f xs)" by simp_all
  let ?Q = "\<lambda>i. \<exists>y\<in>set xs. f y = i \<and> P y"
  let ?Q' = "\<lambda>i. \<exists>y\<in>set (x # xs). f y = i \<and> P y"
  have rest: "filter ?Q' (map f xs) = filter ?Q (map f xs)"
    using notin by (intro filter_cong) auto
  have head: "?Q' (f x) \<longleftrightarrow> P x"
    using notin by (metis image_eqI set_ConsD list.set_intros(1))
  have "filter ?Q' (map f (x # xs))
          = (if ?Q' (f x) then f x # filter ?Q' (map f xs) else filter ?Q' (map f xs))"
    by (simp only: list.map filter.simps)
  also have "\<dots> = (if P x then f x # filter ?Q (map f xs) else filter ?Q (map f xs))"
    by (simp only: rest head)
  also have "\<dots> = (if P x then f x # map f (filter P xs) else map f (filter P xs))"
    by (simp only: Cons.IH [OF d])
  also have "\<dots> = map f (filter P (x # xs))" by simp
  finally show ?case by (rule sym)
qed

lemma aggregate_ties_in_first_seen_order:
  assumes "consistent lc"
  shows "map cs_id (filter (\<lambda>c. ties lc n (cs_name c)) (aggregateMentions lc ms))
           = filter (\<lambda>i. \<exists>c\<in>set (aggregateMentions lc ms). cs_id c = i \<and> ties lc n (cs_name c))
               (first_seen ms)"
proof -
  let ?cm = "foldl record_channel [] ms"
  let ?P = "\<lambda>c. ties lc n (cs_name c)"
  have le: "lc (cs_name a) (cs_name b) \<le> 0" if "?P a" "?P b" for a b
  proof -
    have "lc (cs_name a) n \<le> 0" "lc n (cs_name b) \<le> 0"
      using that by (simp_all add: ties_def)
    then show ?thesis using assms unfolding consistent_def by blast
  qed
  have d: "distinct (map cs_id (summaries ?cm))"
    unfolding ids_summaries by (rule foldl_record_distinct) simp
  have s: "set (aggregateMentions lc ms) = set (summaries ?cm)"
    by (simp add: aggregate_alt set_array_sort)
  have "filter ?P (aggregateMentions lc ms) = filter ?P (summaries ?cm)"
    unfolding aggregate_alt
    by (rule filter_array_sort [where cmp = "\<lambda>a b. lc (cs_name a) (cs_name b)"]) (rule le)
  then have "map cs_id (filter ?P (aggregateMentions lc ms))
               = map cs_id (filter ?P (summaries ?cm))" by simp
  also have "\<dots> = filter (\<lambda>i. \<exists>c\<in>set (summaries ?cm). cs_id c = i \<and> ?P c)
                      (map cs_id (summaries ?cm))"
    using d by (rule map_filter_distinct)
  also have "map cs_id (summaries ?cm) = first_seen ms"
    using keys_first_seen [of "[]" ms] by (simp add: ids_summaries)
  finally show ?thesis unfolding s .
qed

section \<open>Properties of searchSlackMessages\<close>

lemma encodeURIComponent_example:
  "encodeURIComponent ''to:me <@U1>'' = Inr ''to%3Ame%20%3C%40U1%3E''"
  by (simp add: encodeURIComponent_def encoded_def percent_encode_def unreserved_def
      hex_digit_def)

lemma encodeURIComponent_lone_surrogate:
  "encodeURIComponent (''U'' @ [CHR 0xED, CHR 0xA0, CHR 0x80]) = Inl URIError"
  by (simp add: encodeURIComponent_def)

lemma process_page_only_logs:
  "ev \<in> set (fst (process_page page r)) \<Longrightarrow>
     \<exists>l. ev = Logged l \<and> l \<noteq> MaxPageWarning \<and>
         (ok r = Some True \<longrightarrow> l \<noteq> InvalidAuthNote \<and> (\<forall>e. l \<noteq> ApiError e))"
  by (auto simp: process_page_def and_then_def emit_def return_def raise_def Let_def
      split: if_splits option.splits list.splits prod.splits sum.splits)

lemma process_page_success:
  "success_page r \<Longrightarrow>
     snd (process_page page r) = Inr (Page (page_matches r) (reported_page_count r))"
  by (auto simp: process_page_def and_then_def emit_def return_def raise_def Let_def
      success_page_def page_matches_def reported_page_count_def loggable_def
      split: if_splits option.splits list.splits prod.splits sum.splits)

lemma process_page_not_ok:
  "ok r \<noteq> Some True \<Longrightarrow>
     process_page page r =
       (Logged (ApiError (error r)) #
          (if error r = Some ''invalid_auth'' then [Logged InvalidAuthNote] else []),
        Inr Break)"
  by (simp add: process_page_def and_then_def emit_def return_def)

lemma fetch_page_answers:
  "answers api token query page r \<Longrightarrow>
     fetch_page api token query page = ([Requested (page_request token query page)], Inr r)"
  by (simp add: fetch_page_def answers_def JSON_parse_def encodeURIComponent_def
      page_request_def)

lemma fetch_page_not_encodable:
  "lone_surrogate query \<Longrightarrow> fetch_page api token query page = ([], Inl URIError)"
  by (simp add: fetch_page_def encodeURIComponent_def raise_def)

lemma fst_fetch_page:
  "\<not> lone_surrogate query \<Longrightarrow>
     fst (fetch_page api token query page) = [Requested (page_request token query page)]"
  by (simp add: fetch_page_def encodeURIComponent_def page_request_def Let_def
      split: fetch.splits)

lemma search_pages_not_encodable:
  "lone_surrogate query \<Longrightarrow> search_pages api token query page acc = ([], Inl URIError)"
  by (subst search_pages.simps) (simp add: fetch_page_not_encodable)

lemma search_pages_not_ok:
  assumes "answers api token query page r" and "ok r \<noteq> Some True"
  shows "search_pages api token query page acc =
           (Requested (page_request token query page) # Logged (ApiError (error r)) #
              (if error r = Some ''invalid_auth'' then [Logged InvalidAuthNote] else []),
            Inr acc)"
  using assms
  by (simp add: search_pages.simps [of api token query page acc] fetch_page_answers
      process_page_not_ok)

lemma search_pages_cap:
  assumes "answers api token query page r" and "success_page r" and "5 \<le> page"
  shows "search_pages api token query page acc =
           (Requested (page_request token query page) # fst (process_page page r)
              @ [Logged MaxPageWarning],
            Inr (acc @ page_matches r))"
proof -
  obtain tr where "process_page page r = (tr, Inr (Page (page_matches r) (reported_page_count r)))"
    using process_page_success [OF assms(2), of page] by (cases "process_page page r") simp
  then show ?thesis using assms(1,3)
    by (simp add: search_pages.simps [of api token query page acc] fetch_page_answers)
qed

lemma search_pages_stop:
  assumes "answers api token query page r" and "success_page r" and "page < 5"
    and "\<not> page_le (page + 1) (reported_page_count r)"
  shows "search_pages api token query page acc =
           (Requested (page_request token query page) # fst (process_page page r),
            Inr (acc @ page_matches r))"
proof -
  obtain tr where "process_page page r = (tr, Inr (Page (page_matches r) (reported_page_count r)))"
    using process_page_success [OF assms(2), of page] by (cases "process_page page r") simp
  then show ?thesis using assms(1,3,4)
    by (simp add: search_pages.simps [of api token query page acc] fetch_page_answers)
qed

lemma search_pages_next:
  assumes "answers api token query page r" and "success_page r" and "page < 5"
    and "page_le (page + 1) (reported_page_count r)"
  shows "search_pages api token query page acc =
           (Requested (page_request token query page) # fst (process_page page r)
              @ fst (search_pages api token query (page + 1) (acc @ page_matches r)),
            snd (search_pages api token query (page + 1) (acc @ page_matches r)))"
proof -
  obtain tr where "process_page page r = (tr, Inr (Page (page_matches r) (reported_page_count r)))"
    using process_page_success [OF assms(2), of page] by (cases "process_page page r") simp
  then show ?thesis using assms(1,3,4)
    by (simp add: search_pages.simps [of api token query page acc] fetch_page_answers
        split: prod.splits)
qed

lemma requested_pages_simps:
  "requested_pages [] = []"
  "requested_pages (Requested q # tr) = req_page q # requested_pages tr"
  "requested_pages (Logged l # tr) = requested_pages tr"
  "requested_pages (Posted u t # tr) = requested_pages tr"
  "requested_pages (tr @ tr') = requested_pages tr @ requested_pages tr'"
  by (simp_all add: requested_pages_def)

lemma logged_simps:
  "logged [] = []"
  "logged (Requested q # tr) = logged tr"
  "logged (Logged l # tr) = l # logged tr"
  "logged (Posted u t # tr) = logged tr"
  "logged (tr @ tr') = logged tr @ logged tr'"
  by (simp_all add: logged_def)

lemma requested_process_page: "requested_pages (fst (process_page page r)) = []"
proof -
  have "\<forall>ev\<in>set tr. \<exists>l. ev = Logged l \<Longrightarrow> requested_pages tr = []" for tr
    by (induction tr) (auto simp: requested_pages_simps)
  then show ?thesis using process_page_only_logs by blast
qed

lemma search_pages_requests_sent:
  "\<not> lone_surrogate query \<Longrightarrow>
     \<exists>k. 1 \<le> k \<and> (page \<le> 5 \<longrightarrow> page + k \<le> 6) \<and>
       requested_pages (fst (search_pages api token query page acc)) = [page..<page + k]"
proof (induction api token query page acc rule: search_pages.induct)
  case (1 api token query page allMessages)
  have f: "requested_pages (fst (fetch_page api token query page)) = [page]"
    using "1.prems" by (simp add: fst_fetch_page requested_pages_simps page_request_def)
  show ?case
  proof (cases "fetch_page api token query page")
    case (Pair tr res)
    note fp = Pair
    have tr: "requested_pages tr = [page]" using f fp by simp
    show ?thesis
    proof (cases res)
      case (Inl e)
      then have "requested_pages (fst (search_pages api token query page allMessages)) = [page ..< page + 1]"
        using fp tr by (simp add: search_pages.simps [of api token query page allMessages])
      then show ?thesis by (intro exI [of _ 1]) simp
    next
      case (Inr resJson)
      note res = Inr
      show ?thesis
      proof (cases "process_page page resJson")
        case (Pair tr2 res2)
        note pp = Pair
        have tr2: "requested_pages tr2 = []"
          using requested_process_page [of page resJson] pp by simp
        show ?thesis
        proof (cases res2)
          case (Inl e)
          then have "requested_pages (fst (search_pages api token query page allMessages)) = [page ..< page + 1]"
            using fp res pp tr tr2
            by (simp add: search_pages.simps [of api token query page allMessages] requested_pages_simps)
          then show ?thesis by (intro exI [of _ 1]) simp
        next
          case (Inr pr)
          note res2 = Inr
          show ?thesis
          proof (cases pr)
            case Break
            then have "requested_pages (fst (search_pages api token query page allMessages)) = [page ..< page + 1]"
              using fp res pp res2 tr tr2
              by (simp add: search_pages.simps [of api token query page allMessages] requested_pages_simps)
            then show ?thesis by (intro exI [of _ 1]) simp
          next
            case (Page ms pageCount)
            note pr = Page
            show ?thesis
            proof (cases "page + 1 > 5 \<or> \<not> page_le (page + 1) pageCount")
              case True
              then have "requested_pages (fst (search_pages api token query page allMessages)) = [page ..< page + 1]"
                using fp res pp res2 pr tr tr2
                by (auto simp: search_pages.simps [of api token query page allMessages] requested_pages_simps)
              then show ?thesis by (intro exI [of _ 1]) simp
            next
              case False
              then have c: "\<not> 5 < page + 1" "page_le (page + 1) pageCount" by simp_all
              obtain k where k: "1 \<le> k" "page + 1 \<le> 5 \<longrightarrow> page + 1 + k \<le> 6"
                "requested_pages (fst (search_pages api token query (page + 1) (allMessages @ ms)))
                   = [page + 1 ..< page + 1 + k]"
                using "1.IH" [OF fp [symmetric] res pp [symmetric] res2 pr c "1.prems"] by blast
              have "fst (search_pages api token query page allMessages)
                      = tr @ tr2 @ fst (search_pages api token query (page + 1) (allMessages @ ms))"
                using fp res pp res2 pr c
                by (simp add: search_pages.simps [of api token query page allMessages]
                    split: prod.splits)
              then have "requested_pages (fst (search_pages api token query page allMessages))
                      = [page] @ [] @ [page + 1 ..< page + 1 + k]"
                by (simp only: requested_pages_simps tr tr2 k(3))
              also have "\<dots> = [page ..< page + (k + 1)]" by (simp add: upt_rec)
              finally show ?thesis using k(1,2) c(1) by (intro exI [of _ "k + 1"]) simp
            qed
          qed
        qed
      qed
    qed
  qed
qed

lemma search_pages_requests_bounded:
  "\<exists>k. (page \<le> 5 \<longrightarrow> page + k \<le> 6) \<and>
       requested_pages (fst (search_pages api token query page acc)) = [page..<page + k]"
proof (cases "lone_surrogate query")
  case True
  then have "requested_pages (fst (search_pages api token query page acc)) = [page..<page + 0]"
    by (simp add: search_pages_not_encodable requested_pages_simps)
  then show ?thesis by (intro exI [of _ 0]) simp
next
  case False
  then show ?thesis using search_pages_requests_sent [of query page api token acc] by blast
qed

lemma search_pages_run:
  assumes "\<forall>p\<in>set [page..<n]. continues api token query r p" and "page \<le> n" and "n \<le> 5"
  shows "search_pages api token query page acc =
           (pages_trace token query r [page..<n]
              @ fst (search_pages api token query n (acc @ pages_matches r [page..<n])),
            snd (search_pages api token query n (acc @ pages_matches r [page..<n])))"
  using assms
proof (induction "n - page" arbitrary: page acc)
  case 0
  then have "page = n" by simp
  then show ?case by (simp add: pages_trace_def pages_matches_def)
next
  case (Suc k)
  then have lt: "page < n" by simp
  then have up: "[page..<n] = page # [Suc page..<n]" by (simp add: upt_rec)
  have c: "continues api token query r page" using Suc.prems(1) up by simp
  have "search_pages api token query page acc =
           (Requested (page_request token query page) # fst (process_page page (r page))
              @ fst (search_pages api token query (page + 1) (acc @ page_matches (r page))),
            snd (search_pages api token query (page + 1) (acc @ page_matches (r page))))"
    using c lt Suc.prems(3) unfolding continues_def
    by (intro search_pages_next) simp_all
  then have step: "search_pages api token query page acc =
           (Requested (page_request token query page) # fst (process_page page (r page))
              @ fst (search_pages api token query (Suc page) (acc @ page_matches (r page))),
            snd (search_pages api token query (Suc page) (acc @ page_matches (r page))))"
    by simp
  have rest: "search_pages api token query (Suc page) (acc @ page_matches (r page)) =
           (pages_trace token query r [Suc page..<n]
              @ fst (search_pages api token query n
                      ((acc @ page_matches (r page)) @ pages_matches r [Suc page..<n])),
            snd (search_pages api token query n
                   ((acc @ page_matches (r page)) @ pages_matches r [Suc page..<n])))"
  proof (rule Suc.hyps(1))
    show "k = n - Suc page" using Suc.hyps(2) by simp
    show "\<forall>p\<in>set [Suc page..<n]. continues api token query r p" using Suc.prems(1) up by simp
    show "Suc page \<le> n" using lt by simp
    show "n \<le> 5" by (rule Suc.prems(3))
  qed
  have t: "pages_trace token query r [page..<n] =
             Requested (page_request token query page) # fst (process_page page (r page))
               @ pages_trace token query r [Suc page..<n]"
    unfolding up by (simp add: pages_trace_def)
  have m: "pages_matches r [page..<n] = page_matches (r page) @ pages_matches r [Suc page..<n]"
    unfolding up by (simp add: pages_matches_def)
  show ?case
    unfolding t m by (subst step, subst rest, subst rest) simp
qed

lemma requested_pages_trace: "requested_pages (pages_trace token query r ps) = ps"
  by (induction ps)
    (simp_all add: pages_trace_def requested_pages_simps requested_process_page page_request_def)

lemma in_logged: "l \<in> set (logged tr) \<longleftrightarrow> Logged l \<in> set tr"
  by (induction tr) (auto simp: logged_def split: event.splits)

lemma logged_pages_trace:
  assumes "l \<in> set (logged (pages_trace token query r ps))"
  shows "l \<noteq> MaxPageWarning \<and>
         ((\<forall>p\<in>set ps. ok (r p) = Some True) \<longrightarrow> l \<noteq> InvalidAuthNote \<and> (\<forall>e. l \<noteq> ApiError e))"
proof -
  from assms obtain p where p: "p \<in> set ps" "Logged l \<in> set (fst (process_page p (r p)))"
    by (auto simp: in_logged pages_trace_def)
  then show ?thesis using process_page_only_logs [OF p(2)] by auto
qed

lemma searchSlackMessages_eq:
  "searchSlackMessages api token query =
     (case search_pages api token query 1 [] of
        (tr, Inl e) \<Rightarrow> (Logged (SearchStart query) # tr, Inl e)
      | (tr, Inr allMessages) \<Rightarrow>
          (Logged (SearchStart query) # tr @ [Logged (SearchCompleted (length allMessages))],
           Inr allMessages))"
  by (simp add: searchSlackMessages_def and_then_def emit_def return_def
      split: prod.splits sum.splits)

lemma snd_searchSlackMessages:
  "snd (searchSlackMessages api token query) = snd (search_pages api token query 1 [])"
  by (simp add: searchSlackMessages_eq split: prod.splits sum.splits)

lemma requested_searchSlackMessages:
  "requested_pages (fst (searchSlackMessages api token query))
     = requested_pages (fst (search_pages api token query 1 []))"
  by (simp add: searchSlackMessages_eq requested_pages_simps split: prod.splits sum.splits)

lemma logged_searchSlackMessages:
  "set (logged (fst (searchSlackMessages api token query)))
     \<subseteq> set (logged (fst (search_pages api token query 1 []))) \<union> {SearchStart query} \<union> range SearchCompleted"
  "set (logged (fst (search_pages api token query 1 [])))
     \<subseteq> set (logged (fst (searchSlackMessages api token query)))"
  by (auto simp: searchSlackMessages_eq logged_simps split: prod.splits sum.splits)

section \<open>Facts about the example inputs\<close>

lemma match_id_in_channel: "match_id (in_channel i name) = (if i = [] then None else Some i)"
  by (simp add: match_id_def in_channel_def truthy_def)

lemma match_name_in_channel: "match_name (in_channel i name) = name"
  by (simp add: match_name_def in_channel_def)

lemma match_id_no_channel: "match_id no_channel = None"
  by (simp add: match_id_def no_channel_def)

lemma consistent_codeunit_compare: "consistent codeunit_compare"
  unfolding consistent_def codeunit_compare_def by auto

lemma success_result_page: "success_page (result_page n pages hits)"
  by (cases n) (simp_all add: success_page_def result_page_def page_matches_def loggable_def
      sample_match_def in_channel_def)

lemma page_matches_result_page: "page_matches (result_page n pages hits) = replicate n sample_match"
  by (simp add: page_matches_def result_page_def)

lemma reported_result_page: "reported_page_count (result_page n pages hits) = Some pages"
  by (simp add: reported_page_count_def result_page_def)

lemma ok_error_page: "ok (error_page e) \<noteq> Some True" "error (error_page e) = Some e"
  by (simp_all add: error_page_def)

section \<open>Runs of the pagination loop\<close>

lemma search_pages_next_at:
  assumes "answers api token query page r" and "success_page r" and "page < 5"
    and "page_le q (reported_page_count r)" and "q = page + 1"
  shows "search_pages api token query page acc =
           (Requested (page_request token query page) # fst (process_page page r)
              @ fst (search_pages api token query q (acc @ page_matches r)),
            snd (search_pages api token query q (acc @ page_matches r)))"
  using search_pages_next [OF assms(1-3), of acc] assms(4,5) by simp

lemma upt_1_5: "[1..<5] = [1, 2, 3, 4::nat]"
  by (simp add: upt_rec)

lemma search_five_pages:
  assumes "\<forall>p\<in>set [1..<5]. continues api token query r p"
    and "answers api token query 5 (r 5)" and "success_page (r 5)"
  shows "search_pages api token query 1 [] =
           (pages_trace token query r [1, 2, 3, 4, 5] @ [Logged MaxPageWarning],
            Inr (pages_matches r [1, 2, 3, 4, 5]))"
proof -
  have run: "search_pages api token query 1 [] =
           (pages_trace token query r [1..<5]
              @ fst (search_pages api token query 5 ([] @ pages_matches r [1..<5])),
            snd (search_pages api token query 5 ([] @ pages_matches r [1..<5])))"
    using assms(1) by (intro search_pages_run) simp_all
  have cap: "search_pages api token query 5 acc =
           (Requested (page_request token query 5) # fst (process_page 5 (r 5))
              @ [Logged MaxPageWarning],
            Inr (acc @ page_matches (r 5)))" for acc
    using assms(2,3) by (intro search_pages_cap) simp_all
  show ?thesis
    unfolding run cap upt_1_5 by (simp add: pages_trace_def pages_matches_def)
qed

text \<open>
  The sample line reads \<^verbatim>\<open>sample.channel.name\<close> with no test of \<^verbatim>\<open>sample.channel\<close>: an ok
  page whose first match has no channel raises, although \<open>aggregateMentions\<close> would skip
  such a match.
\<close>

lemma search_raises_without_channel:
  assumes "\<not> lone_surrogate query"
  shows "snd (searchSlackMessages no_channel_api token query) = Inl TypeError"
proof -
  have "snd (search_pages no_channel_api token query 1 []) = Inl TypeError"
    using assms
    by (subst search_pages.simps)
      (simp add: fetch_page_def encodeURIComponent_def no_channel_api_def JSON_parse_def
        process_page_def and_then_def emit_def raise_def no_channel_def)
  then show ?thesis by (simp add: snd_searchSlackMessages)
qed

lemma aggregate_skips_without_channel: "aggregateMentions lc [no_channel] = []"
  by (simp add: aggregateMentions_def record_channel_def no_channel_def summaries_def
      array_sort_def)

section \<open>Properties of reportYesterdayMentions\<close>









text \<open>
  With a user id that is a lone surrogate the query cannot be encoded: the URIError of
  \<^verbatim>\<open>encodeURIComponent\<close> leaves the entry function before any request is made.
\<close>

lemma report_raises_on_lone_surrogate:
  "snd (reportYesterdayMentions surrogate_environment) = Inl URIError \<and>
   requested_pages (fst (reportYesterdayMentions surrogate_environment)) = []"
proof -
  let ?q = "search_query [CHR 0xED, CHR 0xA0, CHR 0x80] ''2024-01-01'' ''2024-01-02''"
  have "lone_surrogate ?q" by (simp add: search_query_def)
  then have "search_pages three_pages_api token ?q 1 [] = ([], Inl URIError)" for token
    by (rule search_pages_not_encodable)
  then have "searchSlackMessages three_pages_api token ?q = ([Logged (SearchStart ?q)], Inl URIError)"
    for token
    by (simp add: searchSlackMessages_eq)
  then have "reportYesterdayMentions surrogate_environment
               = ([Logged (QueryInitiated ?q), Logged (SearchStart ?q)], Inl URIError)"
    by (simp add: reportYesterdayMentions_def surrogate_environment_def surrogate_properties_def
        complete_properties_def SLACK_USER_TOKEN_KEY_def SLACK_USER_ID_KEY_def truthy_def
        and_then_def emit_def Let_def)
  then show ?thesis by (simp add: requested_pages_simps)
qed

section \<open>Properties of setDailyMentionTrigger\<close>

lemma filter_remove1_other: "P t \<Longrightarrow> filter (\<lambda>x. \<not> P x) (remove1 t xs) = filter (\<lambda>x. \<not> P x) xs"
  by (induction xs) auto

lemma mset_filter_remove1: "mset (filter P (remove1 t xs)) = mset (filter P xs) - (if P t then {#t#} else {#})"
  by (induction xs) auto

lemma delete_mention_triggers_keeps:
  "filter (\<lambda>t. \<not> bound_to_report t) (delete_mention_triggers ts p)
     = filter (\<lambda>t. \<not> bound_to_report t) p"
proof (induction ts arbitrary: p)
  case Nil
  then show ?case by (simp add: delete_mention_triggers_def)
next
  case (Cons t ts)
  have step: "delete_mention_triggers (t # ts) p =
          delete_mention_triggers ts (if bound_to_report t then remove1 t p else p)"
    by (simp add: delete_mention_triggers_def deleteTrigger_def bound_to_report_def)
  show ?case unfolding step using Cons.IH [of "if bound_to_report t then remove1 t p else p"]
    by (simp add: filter_remove1_other)
qed

lemma delete_mention_triggers_removes:
  "mset (filter bound_to_report (delete_mention_triggers ts p))
     = mset (filter bound_to_report p) - mset (filter bound_to_report ts)"
proof (induction ts arbitrary: p)
  case Nil
  then show ?case by (simp add: delete_mention_triggers_def)
next
  case (Cons t ts)
  have step: "delete_mention_triggers (t # ts) p =
          delete_mention_triggers ts (if bound_to_report t then remove1 t p else p)"
    by (simp add: delete_mention_triggers_def deleteTrigger_def bound_to_report_def)
  show ?case unfolding step using Cons.IH [of "if bound_to_report t then remove1 t p else p"]
    by (simp add: mset_filter_remove1 diff_diff_add)
qed

lemma delete_all_mention_triggers:
  "delete_mention_triggers project project = filter (\<lambda>t. \<not> bound_to_report t) project"
proof -
  let ?d = "delete_mention_triggers project project"
  have "mset (filter bound_to_report ?d) = {#}"
    unfolding delete_mention_triggers_removes by simp
  then have none: "filter bound_to_report ?d = []" by (simp only: mset_zero_iff)
  have "\<forall>t\<in>set ?d. \<not> bound_to_report t"
    using none unfolding filter_empty_conv by blast
  then have "filter (\<lambda>t. \<not> bound_to_report t) ?d = ?d" by simp
  then show ?thesis using delete_mention_triggers_keeps [of project project] by simp
qed

lemma install_eq:
  "install project = filter (\<lambda>t. \<not> bound_to_report t) project @ [newDailyTrigger]"
proof -
  have "install project = delete_mention_triggers project project @ [newDailyTrigger]"
    by (simp add: install_def setDailyMentionTrigger_def Let_def)
  then show ?thesis by (simp add: delete_all_mention_triggers)
qed

lemma bound_new: "bound_to_report newDailyTrigger"
  by (simp add: bound_to_report_def newDailyTrigger_def)

lemma install_one: "filter bound_to_report (install project) = [newDailyTrigger]"
  by (simp add: install_eq bound_new)

lemma install_others:
  "filter (\<lambda>t. \<not> bound_to_report t) (install project) = filter (\<lambda>t. \<not> bound_to_report t) project"
  by (simp add: install_eq bound_new)

lemma install_idem: "install (install project) = install project"
  by (simp add: install_eq bound_new)

lemma install_funpow: "0 < n \<Longrightarrow> (install ^^ n) project = install project"
proof (induction n)
  case 0
  then show ?case by simp
next
  case (Suc n)
  then show ?case by (cases "n = 0") (simp_all add: install_idem)
qed

section \<open>The claims\<close>

subsection \<open>C1: three pages\<close>

text \<open>
  Claim C1, as amended. The loop reads \<open>page_count\<close> again from every page, so what
  page 1 reports does not settle the number of requests. When pages 1, 2 and 3 are
  successful pages that each report \<open>page_count = 3\<close> and hold 100, 100 and 37 matches,
  \<open>searchSlackMessages\<close> requests pages 1, 2, 3 in that order and no other, and returns the
  237 matches in page order.
\<close>

theorem search_three_pages:
  assumes "answers api token query 1 r1" and "answers api token query 2 r2"
    and "answers api token query 3 r3"
    and "success_page r1" and "success_page r2" and "success_page r3"
    and "reported_page_count r1 = Some 3" and "reported_page_count r2 = Some 3"
    and "reported_page_count r3 = Some 3"
    and "length (page_matches r1) = 100" and "length (page_matches r2) = 100"
    and "length (page_matches r3) = 37"
  shows "requested_pages (fst (searchSlackMessages api token query)) = [1, 2, 3] \<and>
         snd (searchSlackMessages api token query)
           = Inr (page_matches r1 @ page_matches r2 @ page_matches r3) \<and>
         length (page_matches r1 @ page_matches r2 @ page_matches r3) = 237"
proof -
  have p3: "search_pages api token query 3 acc =
              (Requested (page_request token query 3) # fst (process_page 3 r3),
               Inr (acc @ page_matches r3))" for acc
    using assms(3,6,9) by (intro search_pages_stop) (simp_all add: page_le_def)
  have p2: "search_pages api token query 2 acc =
              (Requested (page_request token query 2) # fst (process_page 2 r2)
                 @ fst (search_pages api token query 3 (acc @ page_matches r2)),
               snd (search_pages api token query 3 (acc @ page_matches r2)))" for acc
    using assms(2,5,8) by (intro search_pages_next_at) (simp_all add: page_le_def)
  have p1: "search_pages api token query 1 acc =
              (Requested (page_request token query 1) # fst (process_page 1 r1)
                 @ fst (search_pages api token query 2 (acc @ page_matches r1)),
               snd (search_pages api token query 2 (acc @ page_matches r1)))" for acc
    using assms(1,4,7) by (intro search_pages_next_at) (simp_all add: page_le_def)
  have "search_pages api token query 1 [] =
          (Requested (page_request token query 1) # fst (process_page 1 r1)
             @ Requested (page_request token query 2) # fst (process_page 2 r2)
             @ Requested (page_request token query 3) # fst (process_page 3 r3),
           Inr (page_matches r1 @ page_matches r2 @ page_matches r3))"
    unfolding p1 p2 p3 by simp
  then have "requested_pages (fst (search_pages api token query 1 [])) = [1, 2, 3]"
    and "snd (search_pages api token query 1 []) = Inr (page_matches r1 @ page_matches r2 @ page_matches r3)"
    by (simp_all add: requested_pages_simps requested_process_page page_request_def)
  then show ?thesis
    using assms(10-12) by (simp add: requested_searchSlackMessages snd_searchSlackMessages)
qed

theorem search_three_pages_witness:
  "answers three_pages_api ''xoxp'' ''to:me'' 1 (result_page 100 3 237) \<and>
   answers three_pages_api ''xoxp'' ''to:me'' 2 (result_page 100 3 237) \<and>
   answers three_pages_api ''xoxp'' ''to:me'' 3 (result_page 37 3 237) \<and>
   requested_pages (fst (searchSlackMessages three_pages_api ''xoxp'' ''to:me'')) = [1, 2, 3] \<and>
   snd (searchSlackMessages three_pages_api ''xoxp'' ''to:me'')
     = Inr (replicate 100 sample_match @ replicate 100 sample_match @ replicate 37 sample_match)"
proof -
  have a: "answers three_pages_api ''xoxp'' ''to:me'' 1 (result_page 100 3 237)"
    "answers three_pages_api ''xoxp'' ''to:me'' 2 (result_page 100 3 237)"
    "answers three_pages_api ''xoxp'' ''to:me'' 3 (result_page 37 3 237)"
    by (simp_all add: answers_def three_pages_api_def page_request_def)
  from search_three_pages [OF a]
  have "requested_pages (fst (searchSlackMessages three_pages_api ''xoxp'' ''to:me'')) = [1, 2, 3] \<and>
        snd (searchSlackMessages three_pages_api ''xoxp'' ''to:me'')
          = Inr (page_matches (result_page 100 3 237) @ page_matches (result_page 100 3 237)
                 @ page_matches (result_page 37 3 237))"
    by (simp add: success_result_page reported_result_page page_matches_result_page)
  then show ?thesis using a by (simp add: page_matches_result_page)
qed

theorem search_page_count_reread_counterexample:
  "answers shrinking_api ''xoxp'' ''to:me'' 1 (result_page 100 3 237) \<and>
   answers shrinking_api ''xoxp'' ''to:me'' 2 (result_page 100 2 237) \<and>
   answers shrinking_api ''xoxp'' ''to:me'' 3 (result_page 37 3 237) \<and>
   requested_pages (fst (searchSlackMessages shrinking_api ''xoxp'' ''to:me'')) = [1, 2] \<and>
   snd (searchSlackMessages shrinking_api ''xoxp'' ''to:me'')
     = Inr (replicate 100 sample_match @ replicate 100 sample_match)"
proof -
  have a: "answers shrinking_api ''xoxp'' ''to:me'' 1 (result_page 100 3 237)"
    "answers shrinking_api ''xoxp'' ''to:me'' 2 (result_page 100 2 237)"
    "answers shrinking_api ''xoxp'' ''to:me'' 3 (result_page 37 3 237)"
    by (simp_all add: answers_def shrinking_api_def page_request_def)
  have p2: "search_pages shrinking_api ''xoxp'' ''to:me'' 2 acc =
              (Requested (page_request ''xoxp'' ''to:me'' 2) # fst (process_page 2 (result_page 100 2 237)),
               Inr (acc @ page_matches (result_page 100 2 237)))" for acc
    using a(2) by (intro search_pages_stop)
      (simp_all add: page_le_def success_result_page reported_result_page)
  have p1: "search_pages shrinking_api ''xoxp'' ''to:me'' 1 [] =
              (Requested (page_request ''xoxp'' ''to:me'' 1) # fst (process_page 1 (result_page 100 3 237))
                 @ fst (search_pages shrinking_api ''xoxp'' ''to:me'' 2 ([] @ page_matches (result_page 100 3 237))),
               snd (search_pages shrinking_api ''xoxp'' ''to:me'' 2 ([] @ page_matches (result_page 100 3 237))))"
    using a(1) by (intro search_pages_next_at)
      (simp_all add: page_le_def success_result_page reported_result_page)
  have "requested_pages (fst (search_pages shrinking_api ''xoxp'' ''to:me'' 1 [])) = [1, 2]"
    and "snd (search_pages shrinking_api ''xoxp'' ''to:me'' 1 [])
           = Inr (replicate 100 sample_match @ replicate 100 sample_match)"
    unfolding p1 p2
    by (simp_all add: requested_pages_simps requested_process_page page_request_def
        page_matches_result_page)
  then show ?thesis using a
    by (simp add: requested_searchSlackMessages snd_searchSlackMessages)
qed

subsection \<open>C2: the cap of five pages\<close>

text \<open>
  Claim C2, as amended. Whatever the environment does, \<open>searchSlackMessages\<close> makes at
  most five page requests, for pages 1 up to at most 5: the loop is bounded by five
  iterations. When pages 1 to 5 are all answered by successful pages (ok, with the
  \<open>messages\<close> and \<open>pagination\<close> objects and a first match that has a channel and a text)
  reporting a \<open>page_count\<close> above 5, it requests exactly pages 1 to 5 in order, never
  page 6, logs the warning, and returns the matches of these five pages. The code does
  not cut the result: what it returns has at most 500 matches when every page holds at
  most the 100 matches that were asked for, and more otherwise.
\<close>

theorem search_page_cap:
  "(\<exists>k. k \<le> 5 \<and>
        requested_pages (fst (searchSlackMessages api token query)) = [1..<1 + k]) \<and>
   ((\<forall>p\<in>{1..5}. answers api token query p (r p) \<and> success_page (r p) \<and>
                  over_five (reported_page_count (r p))) \<longrightarrow>
      requested_pages (fst (searchSlackMessages api token query)) = [1, 2, 3, 4, 5] \<and>
      6 \<notin> set (requested_pages (fst (searchSlackMessages api token query))) \<and>
      MaxPageWarning \<in> set (logged (fst (searchSlackMessages api token query))) \<and>
      snd (searchSlackMessages api token query) = Inr (pages_matches r [1, 2, 3, 4, 5]) \<and>
      ((\<forall>p\<in>{1..5}. length (page_matches (r p)) \<le> 100) \<longrightarrow>
         (\<exists>ms. snd (searchSlackMessages api token query) = Inr ms \<and> length ms \<le> 500)))"
proof (intro conjI impI)
  obtain k where k: "(1::nat) \<le> 5 \<longrightarrow> 1 + k \<le> 6"
    "requested_pages (fst (search_pages api token query 1 [])) = [1..<1 + k]"
    using search_pages_requests_bounded [of 1 api token query "[]"] by blast
  have "k \<le> 5" using k(1) by simp
  then show "\<exists>k. k \<le> 5 \<and>
        requested_pages (fst (searchSlackMessages api token query)) = [1..<1 + k]"
    using k(2) unfolding requested_searchSlackMessages by blast
next
  assume h: "\<forall>p\<in>{1..5}. answers api token query p (r p) \<and> success_page (r p) \<and>
                  over_five (reported_page_count (r p))"
  have c: "\<forall>p\<in>set [1..<5]. continues api token query r p"
  proof
    fix p assume "p \<in> set [1..<5]"
    then have p: "p \<in> {1..5}" "p + 1 \<le> 5" by auto
    then have "over_five (reported_page_count (r p))" using h by blast
    then obtain n where "reported_page_count (r p) = Some n" "5 < n"
      by (cases "reported_page_count (r p)") (simp_all add: over_five_def)
    then have "page_le (p + 1) (reported_page_count (r p))" using p(2) by (simp add: page_le_def)
    with h p(1) show "continues api token query r p" by (simp add: continues_def)
  qed
  have "(5::nat) \<in> {1..5}" by simp
  then have five: "answers api token query 5 (r 5)" "success_page (r 5)" using h by blast+
  note sp = search_five_pages [OF c five]
  show req: "requested_pages (fst (searchSlackMessages api token query)) = [1, 2, 3, 4, 5]"
    unfolding requested_searchSlackMessages sp
    by (simp add: requested_pages_simps requested_pages_trace)
  show "6 \<notin> set (requested_pages (fst (searchSlackMessages api token query)))"
    unfolding req by simp
  have "MaxPageWarning \<in> set (logged (fst (search_pages api token query 1 [])))"
    unfolding sp by (simp add: logged_simps)
  then show "MaxPageWarning \<in> set (logged (fst (searchSlackMessages api token query)))"
    using logged_searchSlackMessages(2) by blast
  show res: "snd (searchSlackMessages api token query) = Inr (pages_matches r [1, 2, 3, 4, 5])"
    unfolding snd_searchSlackMessages sp by simp
  assume "\<forall>p\<in>{1..5}. length (page_matches (r p)) \<le> 100"
  then have "length (page_matches (r 1)) \<le> 100" "length (page_matches (r 2)) \<le> 100"
    "length (page_matches (r 3)) \<le> 100" "length (page_matches (r 4)) \<le> 100"
    "length (page_matches (r 5)) \<le> 100" by simp_all
  then have "length (pages_matches r [1, 2, 3, 4, 5]) \<le> 500"
    by (simp add: pages_matches_def)
  with res show "\<exists>ms. snd (searchSlackMessages api token query) = Inr ms \<and> length ms \<le> 500"
    by blast
qed

theorem search_page_cap_witness:
  "answers ten_pages_api ''xoxp'' ''to:me'' 5 (result_page 100 10 1000) \<and>
   success_page (result_page 100 10 1000) \<and>
   over_five (reported_page_count (result_page 100 10 1000)) \<and>
   length (page_matches (result_page 100 10 1000)) \<le> 100 \<and>
   requested_pages (fst (searchSlackMessages ten_pages_api ''xoxp'' ''to:me'')) = [1, 2, 3, 4, 5] \<and>
   MaxPageWarning \<in> set (logged (fst (searchSlackMessages ten_pages_api ''xoxp'' ''to:me''))) \<and>
   snd (searchSlackMessages ten_pages_api ''xoxp'' ''to:me'')
     = Inr (pages_matches (\<lambda>p. result_page 100 10 1000) [1, 2, 3, 4, 5]) \<and>
   (\<exists>ms. snd (searchSlackMessages ten_pages_api ''xoxp'' ''to:me'') = Inr ms \<and> length ms \<le> 500)"
proof -
  have a: "answers ten_pages_api ''xoxp'' ''to:me'' p (result_page 100 10 1000)" for p
    by (simp add: answers_def ten_pages_api_def)
  have o: "over_five (reported_page_count (result_page 100 10 1000))"
    by (simp add: over_five_def reported_result_page)
  have h: "\<forall>p\<in>{1..5}. answers ten_pages_api ''xoxp'' ''to:me'' p (result_page 100 10 1000) \<and>
             success_page (result_page 100 10 1000) \<and>
             over_five (reported_page_count (result_page 100 10 1000))"
    using a o success_result_page by blast
  have l: "length (page_matches (result_page 100 10 1000)) \<le> 100"
    by (simp add: page_matches_result_page)
  then have s: "\<forall>p\<in>{1..5::nat}. length (page_matches (result_page 100 10 1000)) \<le> 100"
    by simp
  from search_page_cap [of ten_pages_api "''xoxp''" "''to:me''" "\<lambda>p. result_page 100 10 1000"] h s
  have "requested_pages (fst (searchSlackMessages ten_pages_api ''xoxp'' ''to:me'')) = [1, 2, 3, 4, 5]"
    and "MaxPageWarning \<in> set (logged (fst (searchSlackMessages ten_pages_api ''xoxp'' ''to:me'')))"
    and "snd (searchSlackMessages ten_pages_api ''xoxp'' ''to:me'')
           = Inr (pages_matches (\<lambda>p. result_page 100 10 1000) [1, 2, 3, 4, 5])"
    and "\<exists>ms. snd (searchSlackMessages ten_pages_api ''xoxp'' ''to:me'') = Inr ms \<and> length ms \<le> 500"
    by blast+
  then show ?thesis using a o l success_result_page by blast
qed

theorem search_returns_over_500_counterexample:
  "answers oversized_api ''xoxp'' ''to:me'' 1 (result_page 101 10 1010) \<and>
   answers oversized_api ''xoxp'' ''to:me'' 5 (result_page 101 10 1010) \<and>
   ok (result_page 101 10 1010) = Some True \<and>
   reported_page_count (result_page 101 10 1010) = Some 10 \<and>
   requested_pages (fst (searchSlackMessages oversized_api ''xoxp'' ''to:me'')) = [1, 2, 3, 4, 5] \<and>
   snd (searchSlackMessages oversized_api ''xoxp'' ''to:me'')
     = Inr (pages_matches (\<lambda>p. result_page 101 10 1010) [1, 2, 3, 4, 5]) \<and>
   length (pages_matches (\<lambda>p. result_page 101 10 1010) [1, 2, 3, 4, 5]) = 505"
proof -
  have a: "answers oversized_api ''xoxp'' ''to:me'' p (result_page 101 10 1010)" for p
    by (simp add: answers_def oversized_api_def)
  have s: "success_page (result_page 101 10 1010)" by (rule success_result_page)
  have pc: "reported_page_count (result_page 101 10 1010) = Some 10"
    by (rule reported_result_page)
  have c: "\<forall>p\<in>set [1..<5].
             continues oversized_api ''xoxp'' ''to:me'' (\<lambda>p. result_page 101 10 1010) p"
    using a s by (simp add: continues_def pc page_le_def)
  note sp = search_five_pages
    [of oversized_api "''xoxp''" "''to:me''" "\<lambda>p. result_page 101 10 1010", OF c a s]
  have req: "requested_pages (fst (searchSlackMessages oversized_api ''xoxp'' ''to:me''))
               = [1, 2, 3, 4, 5]"
    unfolding requested_searchSlackMessages sp
    by (simp add: requested_pages_simps requested_pages_trace)
  have res: "snd (searchSlackMessages oversized_api ''xoxp'' ''to:me'')
               = Inr (pages_matches (\<lambda>p. result_page 101 10 1010) [1, 2, 3, 4, 5])"
    unfolding snd_searchSlackMessages sp by simp
  have len: "length (pages_matches (\<lambda>p. result_page 101 10 1010) [1, 2, 3, 4, 5]) = 505"
    by (simp add: pages_matches_def page_matches_result_page)
  have ok: "ok (result_page 101 10 1010) = Some True" by (simp add: result_page_def)
  show ?thesis using a ok pc req res len by blast
qed

subsection \<open>C3: a response that is not ok\<close>

text \<open>
  Claim C3. When the loop reaches page \<open>n\<close> (\<open>n\<close> is at most 5, pages 1 to \<open>n - 1\<close> were
  successful and each reported a \<open>page_count\<close> of at least the next page) and the API
  answers page \<open>n\<close> with a response that is not ok, \<open>searchSlackMessages\<close> logs the
  provider's error, logs the additional line exactly when the error is \<open>invalid_auth\<close>,
  requests no page after \<open>n\<close>, and returns, without raising, exactly the matches of
  pages 1 to \<open>n - 1\<close>: the empty list when \<open>n = 1\<close>.
\<close>

theorem search_stops_on_api_error:
  assumes "1 \<le> n" and "n \<le> 5"
    and "\<forall>p\<in>set [1..<n]. continues api token query r p"
    and "answers api token query n e" and "ok e \<noteq> Some True"
  shows "snd (searchSlackMessages api token query) = Inr (pages_matches r [1..<n]) \<and>
         requested_pages (fst (searchSlackMessages api token query)) = [1..<n] @ [n] \<and>
         ApiError (error e) \<in> set (logged (fst (searchSlackMessages api token query))) \<and>
         (InvalidAuthNote \<in> set (logged (fst (searchSlackMessages api token query)))
            \<longleftrightarrow> error e = Some ''invalid_auth'') \<and>
         (n = 1 \<longrightarrow> snd (searchSlackMessages api token query) = Inr [])"
proof -
  let ?tail = "Requested (page_request token query n) # Logged (ApiError (error e)) #
                 (if error e = Some ''invalid_auth'' then [Logged InvalidAuthNote] else [])"
  have run: "search_pages api token query 1 [] =
           (pages_trace token query r [1..<n]
              @ fst (search_pages api token query n ([] @ pages_matches r [1..<n])),
            snd (search_pages api token query n ([] @ pages_matches r [1..<n])))"
    using assms(1-3) by (intro search_pages_run) simp_all
  have stop: "search_pages api token query n acc = (?tail, Inr acc)" for acc
    using assms(4,5) by (rule search_pages_not_ok)
  have sp: "search_pages api token query 1 [] =
              (pages_trace token query r [1..<n] @ ?tail, Inr (pages_matches r [1..<n]))"
    unfolding run stop by simp
  have res: "snd (searchSlackMessages api token query) = Inr (pages_matches r [1..<n])"
    unfolding snd_searchSlackMessages sp by simp
  have req: "requested_pages (fst (searchSlackMessages api token query)) = [1..<n] @ [n]"
    unfolding requested_searchSlackMessages sp
    by (simp add: requested_pages_simps requested_pages_trace page_request_def)
  have tr: "fst (searchSlackMessages api token query) =
              Logged (SearchStart query) # (pages_trace token query r [1..<n] @ ?tail)
                @ [Logged (SearchCompleted (length (pages_matches r [1..<n])))]"
    unfolding searchSlackMessages_eq sp by simp
  have oks: "\<forall>p\<in>set [1..<n]. ok (r p) = Some True"
    using assms(3) by (simp add: continues_def success_page_def)
  have quiet: "InvalidAuthNote \<notin> set (logged (pages_trace token query r [1..<n]))"
    using logged_pages_trace [of InvalidAuthNote token query r "[1..<n]"] oks by blast
  have err: "ApiError (error e) \<in> set (logged (fst (searchSlackMessages api token query)))"
    unfolding tr by (simp add: logged_simps)
  have auth: "InvalidAuthNote \<in> set (logged (fst (searchSlackMessages api token query)))
                \<longleftrightarrow> error e = Some ''invalid_auth''"
    unfolding tr using quiet by (simp add: logged_simps)
  have first: "n = 1 \<longrightarrow> snd (searchSlackMessages api token query) = Inr []"
    using res by (simp add: pages_matches_def)
  show ?thesis using res req err auth first by blast
qed

theorem search_stops_on_api_error_witness:
  "answers invalid_auth_api ''xoxp'' ''to:me'' 1 (error_page ''invalid_auth'') \<and>
   ok (error_page ''invalid_auth'') \<noteq> Some True \<and>
   snd (searchSlackMessages invalid_auth_api ''xoxp'' ''to:me'') = Inr [] \<and>
   requested_pages (fst (searchSlackMessages invalid_auth_api ''xoxp'' ''to:me'')) = [1] \<and>
   ApiError (Some ''invalid_auth'')
     \<in> set (logged (fst (searchSlackMessages invalid_auth_api ''xoxp'' ''to:me''))) \<and>
   InvalidAuthNote \<in> set (logged (fst (searchSlackMessages invalid_auth_api ''xoxp'' ''to:me'')))"
proof -
  have a: "answers invalid_auth_api ''xoxp'' ''to:me'' 1 (error_page ''invalid_auth'')"
    by (simp add: answers_def invalid_auth_api_def)
  have n: "ok (error_page ''invalid_auth'') \<noteq> Some True" by (rule ok_error_page(1))
  have c: "\<forall>p\<in>set [1..<1]. continues invalid_auth_api ''xoxp'' ''to:me'' (\<lambda>p. error_page []) p"
    by simp
  from search_stops_on_api_error [OF _ _ c a n]
  show ?thesis using a n by (simp add: ok_error_page(2) pages_matches_def)
qed

subsection \<open>C4: one summary per channel id, the last name wins\<close>

text \<open>
  Claim C4. For every input sequence of matches, \<open>aggregateMentions\<close> returns exactly one
  summary per distinct channel id among the matches that have a channel id: the ids of the
  output are distinct, they are exactly the ids of such matches (a match without a
  channel, or whose channel has no id or an empty one, contributes nothing), and so the
  output has as many entries as there are distinct ids. Where several matches share an
  id, the summary of that id carries the name of the last of them in input order.
\<close>

theorem aggregate_one_summary_per_channel_id:
  "distinct (map cs_id (aggregateMentions lc ms)) \<and>
   set (map cs_id (aggregateMentions lc ms)) = {i. \<exists>m\<in>set ms. match_id m = Some i} \<and>
   length (aggregateMentions lc ms) = card {i. \<exists>m\<in>set ms. match_id m = Some i} \<and>
   (\<forall>pre m post i. ms = pre @ m # post \<longrightarrow> match_id m = Some i \<longrightarrow>
      (\<forall>m'\<in>set post. match_id m' \<noteq> Some i) \<longrightarrow>
      \<lparr>cs_id = i, cs_name = display_name i m\<rparr> \<in> set (aggregateMentions lc ms))"
proof -
  let ?out = "aggregateMentions lc ms"
  have ids: "distinct (map cs_id ?out)"
    "set (map cs_id ?out) = {i. \<exists>m\<in>set ms. match_id m = Some i}"
    using ids_aggregate [of lc ms] by simp_all
  have "length ?out = length (map cs_id ?out)" by simp
  also have "\<dots> = card (set (map cs_id ?out))"
    using ids(1) by (rule distinct_card [symmetric])
  finally have len: "length ?out = card {i. \<exists>m\<in>set ms. match_id m = Some i}"
    using ids(2) by simp
  have last: "\<lparr>cs_id = i, cs_name = display_name i m\<rparr> \<in> set ?out"
    if "ms = pre @ m # post" "match_id m = Some i" "\<forall>m'\<in>set post. match_id m' \<noteq> Some i"
    for pre m post i
    using last_match_in_aggregate [OF that(2,3), of lc pre] that(1) by simp
  show ?thesis using ids len last by blast
qed

theorem aggregate_one_summary_per_channel_id_witness:
  "length (aggregateMentions codeunit_compare
             [in_channel ''C1'' (Some ''general''), in_channel ''C2'' None, no_channel,
              in_channel ''C1'' (Some ''random'')]) = 2 \<and>
   \<lparr>cs_id = ''C1'', cs_name = ''random''\<rparr>
     \<in> set (aggregateMentions codeunit_compare
             [in_channel ''C1'' (Some ''general''), in_channel ''C2'' None, no_channel,
              in_channel ''C1'' (Some ''random'')])"
proof -
  let ?ms = "[in_channel ''C1'' (Some ''general''), in_channel ''C2'' None, no_channel,
              in_channel ''C1'' (Some ''random'')]"
  note inst = aggregate_one_summary_per_channel_id [of codeunit_compare ?ms]
  have "{i. \<exists>m\<in>set ?ms. match_id m = Some i} = {''C1'', ''C2''}"
    by (auto simp: match_id_in_channel match_id_no_channel)
  then have "card {i. \<exists>m\<in>set ?ms. match_id m = Some i} = 2" by simp
  then have len: "length (aggregateMentions codeunit_compare ?ms) = 2" using inst by simp
  have split: "?ms = [in_channel ''C1'' (Some ''general''), in_channel ''C2'' None, no_channel]
                       @ in_channel ''C1'' (Some ''random'') # []" by simp
  have id: "match_id (in_channel ''C1'' (Some ''random'')) = Some ''C1''"
    by (simp add: match_id_in_channel)
  have none: "\<forall>m'\<in>set []. match_id m' \<noteq> Some ''C1''" by simp
  have "\<lparr>cs_id = ''C1'', cs_name = display_name ''C1'' (in_channel ''C1'' (Some ''random''))\<rparr>
          \<in> set (aggregateMentions codeunit_compare ?ms)"
    using inst split id none by blast
  then have "\<lparr>cs_id = ''C1'', cs_name = ''random''\<rparr> \<in> set (aggregateMentions codeunit_compare ?ms)"
    by (simp add: display_name_def match_name_in_channel truthy_def)
  with len show ?thesis by simp
qed

subsection \<open>C5: sorted by name; when the order of the input does not matter\<close>

text \<open>
  Claim C5, as amended. With a consistent comparator, the list returned by
  \<open>aggregateMentions\<close> is sorted ascending by name. The output does depend on the order of
  the input: the last name seen for an id is kept, and channels whose names tie stand in
  the order in which their ids first occur in the input. For two inputs with the same
  matches in which every channel id carries a single name, the outputs hold the same
  summaries; they are equal as lists when, moreover, the names of different channels never
  tie.
\<close>

theorem aggregate_sorted_order_independent:
  assumes "consistent lc"
  shows "sorted_wrt (\<lambda>a b. lc (cs_name a) (cs_name b) \<le> 0) (aggregateMentions lc ms) \<and>
         (set ms' = set ms \<longrightarrow> single_named ms \<longrightarrow>
            set (aggregateMentions lc ms') = set (aggregateMentions lc ms)) \<and>
         (set ms' = set ms \<longrightarrow> single_named ms \<longrightarrow> separated lc ms \<longrightarrow>
            aggregateMentions lc ms' = aggregateMentions lc ms) \<and>
         map cs_id (filter (\<lambda>c. ties lc n (cs_name c)) (aggregateMentions lc ms))
           = filter (\<lambda>i. \<exists>c\<in>set (aggregateMentions lc ms). cs_id c = i \<and> ties lc n (cs_name c))
               (first_seen ms)"
proof -
  let ?R = "\<lambda>a b. lc (cs_name a) (cs_name b) \<le> 0"
  have s: "sorted_wrt ?R (aggregateMentions lc xs)" for xs
    using assms by (rule sorted_aggregate)
  have same: "set (aggregateMentions lc ms') = set (aggregateMentions lc ms)"
    if p: "set ms' = set ms" and n: "single_named ms"
  proof -
    have n': "single_named ms'" using single_named_cong [OF p] n by simp
    show ?thesis
      unfolding set_aggregate_single_named [OF n] set_aggregate_single_named [OF n']
      using p by simp
  qed
  have eq: "aggregateMentions lc ms' = aggregateMentions lc ms"
    if p: "set ms' = set ms" and n: "single_named ms" and sep: "separated lc ms"
  proof (rule sorted_wrt_unique [where R = ?R])
    show "sorted_wrt ?R (aggregateMentions lc ms')" by (rule s)
    show "sorted_wrt ?R (aggregateMentions lc ms)" by (rule s)
    show "distinct (aggregateMentions lc ms')" by (rule distinct_aggregate)
    show "distinct (aggregateMentions lc ms)" by (rule distinct_aggregate)
    show "set (aggregateMentions lc ms') = set (aggregateMentions lc ms)"
      using p n by (rule same)
    have sep': "separated lc ms'" using separated_cong [OF p, of lc] sep by simp
    show "a = b" if "a \<in> set (aggregateMentions lc ms')" "b \<in> set (aggregateMentions lc ms')"
      "?R a b" "?R b a" for a b
      using sep' that by (rule separated_antisym)
  qed
  show ?thesis
  proof (intro conjI impI)
    show "map cs_id (filter (\<lambda>c. ties lc n (cs_name c)) (aggregateMentions lc ms))
           = filter (\<lambda>i. \<exists>c\<in>set (aggregateMentions lc ms). cs_id c = i \<and> ties lc n (cs_name c))
               (first_seen ms)"
      using assms by (rule aggregate_ties_in_first_seen_order)
    show "sorted_wrt ?R (aggregateMentions lc ms)" by (rule s)
    show "set (aggregateMentions lc ms') = set (aggregateMentions lc ms)"
      if "set ms' = set ms" "single_named ms" using that by (rule same)
    show "aggregateMentions lc ms' = aggregateMentions lc ms"
      if "set ms' = set ms" "single_named ms" "separated lc ms" using that by (rule eq)
  qed
qed

theorem aggregate_sorted_order_independent_witness:
  "consistent codeunit_compare \<and>
   set [in_channel ''C1'' (Some ''a''), in_channel ''C2'' (Some ''b'')]
     = set [in_channel ''C2'' (Some ''b''), in_channel ''C1'' (Some ''a'')] \<and>
   single_named [in_channel ''C2'' (Some ''b''), in_channel ''C1'' (Some ''a'')] \<and>
   separated codeunit_compare [in_channel ''C2'' (Some ''b''), in_channel ''C1'' (Some ''a'')] \<and>
   sorted_wrt (\<lambda>a b. codeunit_compare (cs_name a) (cs_name b) \<le> 0)
     (aggregateMentions codeunit_compare
        [in_channel ''C2'' (Some ''b''), in_channel ''C1'' (Some ''a'')]) \<and>
   aggregateMentions codeunit_compare [in_channel ''C1'' (Some ''a''), in_channel ''C2'' (Some ''b'')]
     = aggregateMentions codeunit_compare
         [in_channel ''C2'' (Some ''b''), in_channel ''C1'' (Some ''a'')] \<and>
   ties codeunit_compare ''x'' ''x'' \<and>
   first_seen [in_channel ''C2'' (Some ''x''), in_channel ''C1'' (Some ''x'')] = [''C2'', ''C1''] \<and>
   map cs_id (filter (\<lambda>c. ties codeunit_compare ''x'' (cs_name c))
     (aggregateMentions codeunit_compare
        [in_channel ''C2'' (Some ''x''), in_channel ''C1'' (Some ''x'')])) = [''C2'', ''C1'']"
proof -
  let ?ms = "[in_channel ''C2'' (Some ''b''), in_channel ''C1'' (Some ''a'')]"
  let ?ms' = "[in_channel ''C1'' (Some ''a''), in_channel ''C2'' (Some ''b'')]"
  have c: "consistent codeunit_compare" by (rule consistent_codeunit_compare)
  have p: "set ?ms' = set ?ms" by auto
  have n: "single_named ?ms" by (simp add: single_named_def match_id_in_channel)
  have s: "separated codeunit_compare ?ms"
    by (simp add: separated_def match_id_in_channel display_name_def match_name_in_channel
        truthy_def codeunit_compare_def)
  from aggregate_sorted_order_independent [OF c, of ?ms ?ms'] p n s
  have "sorted_wrt (\<lambda>a b. codeunit_compare (cs_name a) (cs_name b) \<le> 0)
          (aggregateMentions codeunit_compare ?ms)"
    and "aggregateMentions codeunit_compare ?ms' = aggregateMentions codeunit_compare ?ms"
    by blast+
  note main = this
  let ?ts = "[in_channel ''C2'' (Some ''x''), in_channel ''C1'' (Some ''x'')]"
  have t: "ties codeunit_compare ''x'' ''x''" by (simp add: ties_def codeunit_compare_def)
  have f: "first_seen ?ts = [''C2'', ''C1'']" by (simp add: match_id_in_channel)
  have out: "set (aggregateMentions codeunit_compare ?ts)
               = {\<lparr>cs_id = ''C2'', cs_name = ''x''\<rparr>, \<lparr>cs_id = ''C1'', cs_name = ''x''\<rparr>}"
    by (simp add: aggregateMentions_def record_channel_id match_id_in_channel display_name_def
        match_name_in_channel truthy_def summaries_def set_array_sort insert_commute)
  from aggregate_sorted_order_independent [OF c, of ?ts ?ts "''x''"]
  have "map cs_id (filter (\<lambda>c. ties codeunit_compare ''x'' (cs_name c))
          (aggregateMentions codeunit_compare ?ts))
        = filter (\<lambda>i. \<exists>c\<in>set (aggregateMentions codeunit_compare ?ts).
                     cs_id c = i \<and> ties codeunit_compare ''x'' (cs_name c)) (first_seen ?ts)"
    by blast
  then have tie: "map cs_id (filter (\<lambda>c. ties codeunit_compare ''x'' (cs_name c))
          (aggregateMentions codeunit_compare ?ts)) = [''C2'', ''C1'']"
    unfolding out f using t by simp
  from main c p n s t f tie show ?thesis by blast
qed

theorem aggregate_order_dependent_counterexample:
  "mset [in_channel ''C1'' (Some ''random''), in_channel ''C1'' (Some ''general'')]
     = mset [in_channel ''C1'' (Some ''general''), in_channel ''C1'' (Some ''random'')] \<and>
   aggregateMentions codeunit_compare
       [in_channel ''C1'' (Some ''general''), in_channel ''C1'' (Some ''random'')]
     = [\<lparr>cs_id = ''C1'', cs_name = ''random''\<rparr>] \<and>
   aggregateMentions codeunit_compare
       [in_channel ''C1'' (Some ''random''), in_channel ''C1'' (Some ''general'')]
     = [\<lparr>cs_id = ''C1'', cs_name = ''general''\<rparr>]"
  by (simp add: aggregateMentions_def record_channel_id match_id_in_channel display_name_def
      match_name_in_channel truthy_def summaries_def array_sort_def)

subsection \<open>C6: the placeholder name\<close>

text \<open>
  Claim C6, as amended. A match that has a channel id but no channel name (absent or
  empty) yields a summary named \<open>private-channel-<id>\<close> provided no later match with the
  same id carries a name; a later match with a name replaces the placeholder. Every
  summary in the output of \<open>aggregateMentions\<close> has a non-empty name.
\<close>

theorem aggregate_placeholder_name:
  "(\<forall>pre m post i. ms = pre @ m # post \<longrightarrow> match_id m = Some i \<longrightarrow> \<not> truthy (match_name m) \<longrightarrow>
      (\<forall>m'\<in>set post. match_id m' = Some i \<longrightarrow> \<not> truthy (match_name m')) \<longrightarrow>
      \<lparr>cs_id = i, cs_name = ''private-channel-'' @ i\<rparr> \<in> set (aggregateMentions lc ms)) \<and>
   (\<forall>c\<in>set (aggregateMentions lc ms). cs_name c \<noteq> [])"
proof -
  have ph: "\<lparr>cs_id = i, cs_name = ''private-channel-'' @ i\<rparr> \<in> set (aggregateMentions lc ms)"
    if "ms = pre @ m # post" "match_id m = Some i" "\<not> truthy (match_name m)"
      "\<forall>m'\<in>set post. match_id m' = Some i \<longrightarrow> \<not> truthy (match_name m')" for pre m post i
  proof -
    have "\<exists>x\<in>set (m # post). match_id x = Some i" using that(2) by simp
    then obtain ys l zs where sp: "m # post = ys @ l # zs" "match_id l = Some i"
      "\<forall>z\<in>set zs. match_id z \<noteq> Some i"
      using split_list_last_prop [of "m # post" "\<lambda>x. match_id x = Some i"] by blast
    have "l \<in> set (m # post)" using sp(1) by simp
    then have "\<not> truthy (match_name l)" using that(3,4) sp(2) by auto
    then have "display_name i l = ''private-channel-'' @ i" by (simp add: display_name_def)
    moreover have "ms = (pre @ ys) @ l # zs" using that(1) sp(1) by simp
    ultimately show ?thesis
      using last_match_in_aggregate [OF sp(2,3), of lc "pre @ ys"] by simp
  qed
  have ne: "cs_name c \<noteq> []" if "c \<in> set (aggregateMentions lc ms)" for c
  proof -
    note mem = that
    obtain m where "cs_name c = display_name (cs_id c) m"
      using mem in_aggregate_iff [of c lc ms] by blast
    then show ?thesis by (auto simp: display_name_def truthy_def split: option.splits)
  qed
  show ?thesis using ph ne by blast
qed

theorem aggregate_placeholder_name_witness:
  "match_id (in_channel ''C2'' None) = Some ''C2'' \<and>
   \<not> truthy (match_name (in_channel ''C2'' None)) \<and>
   \<lparr>cs_id = ''C2'', cs_name = ''private-channel-C2''\<rparr>
     \<in> set (aggregateMentions codeunit_compare
              [in_channel ''C1'' (Some ''general''), in_channel ''C2'' None,
               in_channel ''C2'' (Some [])]) \<and>
   cs_name \<lparr>cs_id = ''C2'', cs_name = ''private-channel-C2''\<rparr> \<noteq> []"
proof -
  let ?ms = "[in_channel ''C1'' (Some ''general''), in_channel ''C2'' None,
               in_channel ''C2'' (Some [])]"
  note inst = aggregate_placeholder_name [of ?ms codeunit_compare]
  have split: "?ms = [in_channel ''C1'' (Some ''general'')] @ in_channel ''C2'' None
                       # [in_channel ''C2'' (Some [])]" by simp
  have id: "match_id (in_channel ''C2'' None) = Some ''C2''"
    by (simp add: match_id_in_channel)
  have nn: "\<not> truthy (match_name (in_channel ''C2'' None))"
    by (simp add: match_name_in_channel truthy_def)
  have later: "\<forall>m'\<in>set [in_channel ''C2'' (Some [])].
                 match_id m' = Some ''C2'' \<longrightarrow> \<not> truthy (match_name m')"
    by (simp add: match_name_in_channel truthy_def)
  have "\<lparr>cs_id = ''C2'', cs_name = ''private-channel-'' @ ''C2''\<rparr>
          \<in> set (aggregateMentions codeunit_compare ?ms)"
    using inst split id nn later by blast
  then have "\<lparr>cs_id = ''C2'', cs_name = ''private-channel-C2''\<rparr>
          \<in> set (aggregateMentions codeunit_compare ?ms)" by simp
  moreover have "\<forall>c\<in>set (aggregateMentions codeunit_compare ?ms). cs_name c \<noteq> []"
    using inst by blast
  ultimately show ?thesis using id nn by blast
qed

theorem aggregate_placeholder_replaced_counterexample:
  "match_id (in_channel ''C1'' None) = Some ''C1'' \<and>
   match_name (in_channel ''C1'' None) = None \<and>
   aggregateMentions codeunit_compare
       [in_channel ''C1'' None, in_channel ''C1'' (Some ''general'')]
     = [\<lparr>cs_id = ''C1'', cs_name = ''general''\<rparr>]"
  by (simp add: aggregateMentions_def record_channel_id match_id_in_channel display_name_def
      match_name_in_channel truthy_def summaries_def array_sort_def)

subsection \<open>C7: which runs of the entry function return normally\<close>




subsection \<open>C8: postToSlack classifies by status code\<close>

text \<open>
  Claim C8. For every url and text, when the webhook returns a response,
  \<open>postToSlack\<close> posts once and logs one line chosen by the status code alone: success
  for 200, and for any other code a failure line carrying the code and the response
  text. In both cases it returns normally, with no value.
\<close>

theorem post_classified_by_status:
  assumes "hook url txt = Responded response"
  shows "postToSlack hook url txt =
           ([Posted url txt,
             Logged (if status_code response = 200 then PostSucceeded
                     else PostFailed (status_code response) (content_text response))],
            Inr ())"
  using assms by (simp add: postToSlack_def)

theorem post_classified_by_status_witness:
  "forbidden_webhook ''https://hooks.example/T0'' (RawText ''hello'')
     = Responded \<lparr>status_code = 403, content_text = ''invalid_token''\<rparr> \<and>
   postToSlack forbidden_webhook ''https://hooks.example/T0'' (RawText ''hello'')
     = ([Posted ''https://hooks.example/T0'' (RawText ''hello''),
         Logged (PostFailed 403 ''invalid_token'')], Inr ())"
proof -
  have r: "forbidden_webhook ''https://hooks.example/T0'' (RawText ''hello'')
             = Responded \<lparr>status_code = 403, content_text = ''invalid_token''\<rparr>"
    by (simp add: forbidden_webhook_def)
  from post_classified_by_status
    [of forbidden_webhook "''https://hooks.example/T0''" "RawText ''hello''", OF r]
  show ?thesis using r by simp
qed

subsection \<open>C9: installing the daily trigger\<close>

text \<open>
  Claim C9. \<open>setDailyMentionTrigger\<close> deletes every trigger of the project whose handler
  is \<open>reportYesterdayMentions\<close>, keeps the others as they were and in their order, and
  adds one new trigger for that handler that fires at hour 8 every day; it logs the
  registration. From every starting list of triggers, after one call and after any number
  of calls, the triggers bound to that handler are exactly this one daily trigger, and a
  second call leaves the list as the first call made it.
\<close>

theorem trigger_installation_idempotent:
  "fst (setDailyMentionTrigger project)
     = filter (\<lambda>t. handlerFunction t \<noteq> ''reportYesterdayMentions'') project
       @ [\<lparr>handlerFunction = ''reportYesterdayMentions'',
           trigger_schedule = AtHourEveryDays 8 1\<rparr>] \<and>
   snd (setDailyMentionTrigger project) = [Logged TriggerRegistered] \<and>
   filter (\<lambda>t. handlerFunction t = ''reportYesterdayMentions'')
       (fst (setDailyMentionTrigger project))
     = [\<lparr>handlerFunction = ''reportYesterdayMentions'',
         trigger_schedule = AtHourEveryDays 8 1\<rparr>] \<and>
   fst (setDailyMentionTrigger (fst (setDailyMentionTrigger project)))
     = fst (setDailyMentionTrigger project) \<and>
   (0 < n \<longrightarrow>
      filter (\<lambda>t. handlerFunction t = ''reportYesterdayMentions'')
          (((\<lambda>p. fst (setDailyMentionTrigger p)) ^^ n) project)
        = [\<lparr>handlerFunction = ''reportYesterdayMentions'',
            trigger_schedule = AtHourEveryDays 8 1\<rparr>])"
proof -
  let ?daily = "\<lparr>handlerFunction = ''reportYesterdayMentions'',
                 trigger_schedule = AtHourEveryDays 8 1\<rparr>"
  have b: "bound_to_report = (\<lambda>t. handlerFunction t = ''reportYesterdayMentions'')"
    by (rule ext) (simp add: bound_to_report_def)
  have i: "install = (\<lambda>p. fst (setDailyMentionTrigger p))"
    by (rule ext) (simp add: install_def)
  have d: "newDailyTrigger = ?daily" by (simp add: newDailyTrigger_def)
  have one: "fst (setDailyMentionTrigger project)
          = filter (\<lambda>t. handlerFunction t \<noteq> ''reportYesterdayMentions'') project @ [?daily]"
    using install_eq [of project] unfolding b i d by simp
  have log: "snd (setDailyMentionTrigger project) = [Logged TriggerRegistered]"
    by (simp add: setDailyMentionTrigger_def Let_def)
  have bound: "filter (\<lambda>t. handlerFunction t = ''reportYesterdayMentions'')
                 (fst (setDailyMentionTrigger project)) = [?daily]"
    using install_one [of project] unfolding b i d by simp
  have idem: "fst (setDailyMentionTrigger (fst (setDailyMentionTrigger project)))
                = fst (setDailyMentionTrigger project)"
    using install_idem [of project] unfolding i by simp
  have many: "filter (\<lambda>t. handlerFunction t = ''reportYesterdayMentions'')
                (((\<lambda>p. fst (setDailyMentionTrigger p)) ^^ n) project) = [?daily]"
    if "0 < n"
    using install_funpow [OF that, of project] install_one [of project] unfolding b i d
    by simp
  show ?thesis using one log bound idem many by blast
qed

theorem trigger_installation_idempotent_witness:
  "(0::nat) < 2 \<and>
   filter (\<lambda>t. handlerFunction t = ''reportYesterdayMentions'')
       (((\<lambda>p. fst (setDailyMentionTrigger p)) ^^ 2) old_triggers)
     = [\<lparr>handlerFunction = ''reportYesterdayMentions'',
         trigger_schedule = AtHourEveryDays 8 1\<rparr>] \<and>
   fst (setDailyMentionTrigger old_triggers) =
     [\<lparr>handlerFunction = ''sendSlackNotification'', trigger_schedule = EveryMinutes 5\<rparr>,
      \<lparr>handlerFunction = ''reportYesterdayMentions'',
       trigger_schedule = AtHourEveryDays 8 1\<rparr>]"
proof -
  have "fst (setDailyMentionTrigger old_triggers) =
     [\<lparr>handlerFunction = ''sendSlackNotification'', trigger_schedule = EveryMinutes 5\<rparr>,
      \<lparr>handlerFunction = ''reportYesterdayMentions'',
       trigger_schedule = AtHourEveryDays 8 1\<rparr>]"
    by (simp add: setDailyMentionTrigger_def delete_mention_triggers_def
        old_triggers_def deleteTrigger_def newDailyTrigger_def)
  moreover have "filter (\<lambda>t. handlerFunction t = ''reportYesterdayMentions'')
       (((\<lambda>p. fst (setDailyMentionTrigger p)) ^^ 2) old_triggers)
     = [\<lparr>handlerFunction = ''reportYesterdayMentions'',
         trigger_schedule = AtHourEveryDays 8 1\<rparr>]"
    using trigger_installation_idempotent [of old_triggers 2] by simp
  ultimately show ?thesis by simp
qed

subsection \<open>C10: what the warning means\<close>

text \<open>
  Claim C10. Whenever \<open>searchSlackMessages\<close> fetches five pages successfully, the run
  ends with the maximum-page warning followed by the completion line: the loop leaves
  through the cap, whatever \<open>page_count\<close> the fifth page reports, also when it reports
  exactly 5. The matches of all five pages are returned, so the warning says that five
  pages were fetched, not that anything was cut off.
\<close>

theorem search_warns_after_five_pages:
  assumes "\<forall>p\<in>set [1..<5]. continues api token query r p"
    and "answers api token query 5 (r 5)" and "success_page (r 5)"
  shows "fst (searchSlackMessages api token query) =
           Logged (SearchStart query) # pages_trace token query r [1, 2, 3, 4, 5]
             @ [Logged MaxPageWarning,
                Logged (SearchCompleted (length (pages_matches r [1, 2, 3, 4, 5])))] \<and>
         snd (searchSlackMessages api token query) = Inr (pages_matches r [1, 2, 3, 4, 5]) \<and>
         MaxPageWarning \<in> set (logged (fst (searchSlackMessages api token query)))"
proof -
  note sp = search_five_pages [OF assms]
  have tr: "fst (searchSlackMessages api token query) =
           Logged (SearchStart query) # pages_trace token query r [1, 2, 3, 4, 5]
             @ [Logged MaxPageWarning,
                Logged (SearchCompleted (length (pages_matches r [1, 2, 3, 4, 5])))]"
    unfolding searchSlackMessages_eq sp by simp
  have res: "snd (searchSlackMessages api token query) = Inr (pages_matches r [1, 2, 3, 4, 5])"
    unfolding snd_searchSlackMessages sp by simp
  have "MaxPageWarning \<in> set (logged (fst (searchSlackMessages api token query)))"
    unfolding tr by (simp add: logged_simps)
  with tr res show ?thesis by blast
qed

theorem search_warns_after_five_pages_witness:
  "answers five_pages_api ''xoxp'' ''to:me'' 5 (result_page 100 5 500) \<and>
   success_page (result_page 100 5 500) \<and>
   reported_page_count (result_page 100 5 500) = Some 5 \<and>
   snd (searchSlackMessages five_pages_api ''xoxp'' ''to:me'')
     = Inr (pages_matches (\<lambda>p. result_page 100 5 500) [1, 2, 3, 4, 5]) \<and>
   length (pages_matches (\<lambda>p. result_page 100 5 500) [1, 2, 3, 4, 5]) = 500 \<and>
   MaxPageWarning \<in> set (logged (fst (searchSlackMessages five_pages_api ''xoxp'' ''to:me'')))"
proof -
  have a: "answers five_pages_api ''xoxp'' ''to:me'' p (result_page 100 5 500)" for p
    by (simp add: answers_def five_pages_api_def)
  have s: "success_page (result_page 100 5 500)" by (rule success_result_page)
  have pc: "reported_page_count (result_page 100 5 500) = Some 5" by (rule reported_result_page)
  have c: "\<forall>p\<in>set [1..<5].
             continues five_pages_api ''xoxp'' ''to:me'' (\<lambda>p. result_page 100 5 500) p"
    using a s by (simp add: continues_def pc page_le_def)
  have len: "length (pages_matches (\<lambda>p. result_page 100 5 500) [1, 2, 3, 4, 5]) = 500"
    by (simp add: pages_matches_def page_matches_result_page)
  from search_warns_after_five_pages
    [of five_pages_api "''xoxp''" "''to:me''" "\<lambda>p. result_page 100 5 500", OF c a s]
  show ?thesis using a s pc len by blast
qed

end
